theory Spec2Isabelle
  imports Complex_Main "HOL-Library.Sublist" "HOL-Library.Product_Lexorder"
begin

section \<open>The cities command of moves-viz\<close>

text \<open>
  A shallow embedding of \<^verbatim>\<open>src/commands/cities.js\<close>. JavaScript numbers are modelled
  as exact reals (\<^typ>\<open>real\<close>); \<^verbatim>\<open>undefined\<close> is \<^const>\<open>None\<close>; a thrown exception
  is the \<^const>\<open>Inl\<close> branch of a sum. Functions of lodash are modelled next to their
  first use, with the prefix \<^verbatim>\<open>lodash_\<close> before their name.
\<close>

subsection \<open>Data model\<close>

text \<open>A track point of a segment carries more than its coordinates; a point of the
  clustering dataset is what \<^verbatim>\<open>_.pick(m, ['lat', 'lon'])\<close> keeps of it.\<close>

record point =
  lat :: real
  lon :: real

record trackPoint =
  tp_lat :: real
  tp_lon :: real
  tp_time :: string

record segment =
  segType :: string
  activity :: string
  trackPoints :: "trackPoint list"

subsection \<open>clusterLocations: the dataset (lines 66--72)\<close>

definition lodash_first :: "'a list \<Rightarrow> 'a option" where
  "lodash_first xs = (case xs of [] \<Rightarrow> None | v # _ \<Rightarrow> Some v)"

definition lodash_last :: "'a list \<Rightarrow> 'a option" where
  "lodash_last xs = (case xs of [] \<Rightarrow> None | _ # _ \<Rightarrow> Some (last xs))"

text \<open>\<^verbatim>\<open>_.filter(collection)\<close> with no predicate keeps the truthy elements; of
  objects and \<^verbatim>\<open>undefined\<close> these are the objects.\<close>

fun lodash_filter_truthy :: "'a option list \<Rightarrow> 'a list" where
  "lodash_filter_truthy [] = []"
| "lodash_filter_truthy (None # vs) = lodash_filter_truthy vs"
| "lodash_filter_truthy (Some v # vs) = v # lodash_filter_truthy vs"

definition pick_lat_lon :: "trackPoint \<Rightarrow> point" where
  "pick_lat_lon m = \<lparr>lat = tp_lat m, lon = tp_lon m\<rparr>"

text \<open>\<^verbatim>\<open>_.uniqBy\<close> walks the array once and keeps an element when its key was not seen
  before. The key of the source, \<^verbatim>\<open>_.values(m).join(',')\<close>, is the text of the latitude,
  a comma, and the text of the longitude; two numbers have the same text exactly when they
  are equal, so the key is modelled as the pair.\<close>

fun baseUniq :: "('a \<Rightarrow> 'k) \<Rightarrow> 'k list \<Rightarrow> 'a list \<Rightarrow> 'a list" where
  "baseUniq f seen [] = []"
| "baseUniq f seen (v # vs) =
     (if f v \<in> set seen then baseUniq f seen vs
      else v # baseUniq f (seen @ [f v]) vs)"

definition lodash_uniqBy :: "('a \<Rightarrow> 'k) \<Rightarrow> 'a list \<Rightarrow> 'a list" where
  "lodash_uniqBy f vs = baseUniq f [] vs"

definition values_key :: "point \<Rightarrow> real \<times> real" where
  "values_key m = (lat m, lon m)"

definition moves_of :: "segment list \<Rightarrow> segment list" where
  "moves_of segments = filter (\<lambda>s. segType s = ''move'') segments"

definition endpoints :: "segment \<Rightarrow> trackPoint option list" where
  "endpoints m = [lodash_first (trackPoints m), lodash_last (trackPoints m)]"

definition dataset_of :: "segment list \<Rightarrow> point list" where
  "dataset_of segments =
     lodash_uniqBy values_key
       (map pick_lat_lon
          (lodash_filter_truthy (concat (map endpoints (moves_of segments)))))"

text \<open>The specification's reading of the dataset, written without the functions of the
  model: for every segment of type move that has track points, the latitude and the
  longitude of its first track point and those of its last track point, in that order.\<close>

definition raw_endpoints :: "segment list \<Rightarrow> point list" where
  "raw_endpoints segments =
     concat (map (\<lambda>m. [\<lparr>lat = tp_lat (hd (trackPoints m)), lon = tp_lon (hd (trackPoints m))\<rparr>,
                        \<lparr>lat = tp_lat (last (trackPoints m)), lon = tp_lon (last (trackPoints m))\<rparr>])
       (filter (\<lambda>m. segType m = ''move'' \<and> trackPoints m \<noteq> []) segments))"

text \<open>Keeping the first occurrence of every element, stated with the library's
  \<^const>\<open>remdups\<close>, which keeps the last one.\<close>

definition first_occurrences :: "'a list \<Rightarrow> 'a list" where
  "first_occurrences xs = rev (remdups (rev xs))"

subsection \<open>clusterLocations: the clustering (lines 74--77)\<close>

text \<open>
  Modelled from the spec: the ClusterEngine of section 4.2 and the GeoDistance of section
  4.1. The source calls \<^verbatim>\<open>dbscan.run(dataset, epsilon, minPoints, distance)\<close> of a
  clustering library with the distance function of another library, and neither is among
  the sources. The distance is a parameter of the model. The engine follows the
  specification's algorithm: the points are scanned in dataset order and a point already
  visited is skipped; the neighbourhood of a point is the list of all points, the point
  itself among the candidates, whose distance to it is at most epsilon; a point with fewer
  than minPoints neighbours is left as noise; any other point seeds a new cluster, which
  grows over a frontier that starts as the seed's neighbourhood: every frontier point not
  yet claimed by a cluster is added to the cluster, and when the added point is a core
  point its neighbourhood is unioned into the frontier. The first cluster that claims a
  point keeps it. A cluster is a list of indices into the dataset.
\<close>

text \<open>Modelled from the spec: the neighbourhood of the point with index \<open>p\<close>.\<close>

definition neighborhood :: "('a \<Rightarrow> 'a \<Rightarrow> real) \<Rightarrow> real \<Rightarrow> 'a list \<Rightarrow> nat \<Rightarrow> nat list" where
  "neighborhood distance epsilon dataset p =
     (if p < length dataset
      then filter (\<lambda>q. distance (dataset ! p) (dataset ! q) \<le> epsilon) [0..<length dataset]
      else [])"

text \<open>Modelled from the spec: a core point has at least minPoints neighbours.\<close>

definition is_core :: "('a \<Rightarrow> 'a \<Rightarrow> real) \<Rightarrow> real \<Rightarrow> int \<Rightarrow> 'a list \<Rightarrow> nat \<Rightarrow> bool" where
  "is_core distance epsilon minPoints dataset p =
     (minPoints \<le> int (length (neighborhood distance epsilon dataset p)))"

text \<open>Modelled from the spec: the union of a neighbourhood into the frontier.\<close>

definition union_into :: "nat list \<Rightarrow> nat list \<Rightarrow> nat list" where
  "union_into frontier nb = frontier @ filter (\<lambda>q. q \<notin> set frontier) nb"

text \<open>Modelled from the spec: the growth of one cluster over its frontier.\<close>

function expandCluster ::
  "('a \<Rightarrow> 'a \<Rightarrow> real) \<Rightarrow> real \<Rightarrow> int \<Rightarrow> 'a list \<Rightarrow> nat list \<Rightarrow> nat set \<Rightarrow> nat set \<Rightarrow> nat list
     \<Rightarrow> nat set \<times> nat set \<times> nat list" where
  "expandCluster distance epsilon minPoints dataset [] visited assigned cluster =
     (visited, assigned, cluster)"
| "expandCluster distance epsilon minPoints dataset (q # frontier) visited assigned cluster =
     expandCluster distance epsilon minPoints dataset
       (if q \<notin> assigned \<and> is_core distance epsilon minPoints dataset q
        then union_into frontier (neighborhood distance epsilon dataset q)
        else frontier)
       (insert q visited)
       (insert q assigned)
       (if q \<in> assigned then cluster else cluster @ [q])"
  by pat_completeness auto

termination expandCluster
proof (relation "measures [\<lambda>(d, e, m, ds, fr, vis, asg, cl). card ({0..<length ds} - asg),
                           \<lambda>(d, e, m, ds, fr, vis, asg, cl). length fr]", goal_cases)
  case 1
  show ?case by (rule wf_measures)
next
  case (2 d e m ds q fr vis asg cl)
  show ?case
  proof (cases "q \<notin> asg \<and> q < length ds")
    case True
    have "{0..<length ds} - insert q asg = ({0..<length ds} - asg) - {q}"
      by blast
    moreover have "q \<in> {0..<length ds} - asg"
      using True by simp
    ultimately have "card ({0..<length ds} - insert q asg) < card ({0..<length ds} - asg)"
      by (simp only: card_Diff1_less finite_Diff finite_atLeastLessThan)
    then show ?thesis
      by (simp only: measures_less prod.case)
  next
    case False
    then have eq: "{0..<length ds} - insert q asg = {0..<length ds} - asg"
      by auto
    from False have "q \<in> asg \<or> neighborhood d e ds q = []"
      by (auto simp: neighborhood_def)
    then have fr: "(if q \<notin> asg \<and> is_core d e m ds q
        then union_into fr (neighborhood d e ds q) else fr) = fr"
      by (auto simp: union_into_def)
    show ?thesis
      unfolding fr
      apply (rule measures_lesseq)
       apply (simp only: prod.case eq)
      apply (rule measures_less)
      apply (simp only: prod.case list.size)
      done
  qed
qed

text \<open>Modelled from the spec: the scan of one point, and the scan of the dataset.\<close>

definition scanPoint ::
  "('a \<Rightarrow> 'a \<Rightarrow> real) \<Rightarrow> real \<Rightarrow> int \<Rightarrow> 'a list \<Rightarrow> nat set \<times> nat set \<times> nat list list \<Rightarrow> nat
     \<Rightarrow> nat set \<times> nat set \<times> nat list list" where
  "scanPoint distance epsilon minPoints dataset st p =
     (case st of (visited, assigned, clusters) \<Rightarrow>
        if p \<in> visited then st
        else if \<not> is_core distance epsilon minPoints dataset p
        then (insert p visited, assigned, clusters)
        else (case expandCluster distance epsilon minPoints dataset
                     (neighborhood distance epsilon dataset p)
                     (insert p visited) (insert p assigned) [p] of
                (visited', assigned', cluster) \<Rightarrow> (visited', assigned', clusters @ [cluster])))"

definition dbscan_run :: "('a \<Rightarrow> 'a \<Rightarrow> real) \<Rightarrow> real \<Rightarrow> int \<Rightarrow> 'a list \<Rightarrow> nat list list" where
  "dbscan_run distance epsilon minPoints dataset =
     snd (snd (foldl (scanPoint distance epsilon minPoints dataset) ({}, {}, [])
                 [0..<length dataset]))"

text \<open>The invariant of the scan: the clusters found so far hold every claimed index once,
  claimed indices are visited, every cluster consists of indices of the dataset and has a
  core point among them, and the neighbourhood of every core point of a cluster lies in
  that cluster and the clusters found before it.\<close>

definition scan_invariant ::
  "('a \<Rightarrow> 'a \<Rightarrow> real) \<Rightarrow> real \<Rightarrow> int \<Rightarrow> 'a list \<Rightarrow> nat set \<times> nat set \<times> nat list list \<Rightarrow> bool" where
  "scan_invariant distance epsilon minPoints dataset st =
     (case st of (visited, assigned, clusters) \<Rightarrow>
        distinct (concat clusters) \<and> set (concat clusters) = assigned \<and> assigned \<subseteq> visited \<and>
        (\<forall>g \<in> set clusters. set g \<subseteq> {0..<length dataset} \<and>
           (\<exists>p \<in> set g. is_core distance epsilon minPoints dataset p)) \<and>
        (\<forall>i < length clusters. \<forall>q \<in> set (clusters ! i).
           is_core distance epsilon minPoints dataset q \<longrightarrow>
           set (neighborhood distance epsilon dataset q) \<subseteq> set (concat (take (Suc i) clusters))))"

text \<open>Lines 74--77: the index groups of the engine, and each index replaced by its point.\<close>

definition clusterLocations ::
  "(point \<Rightarrow> point \<Rightarrow> real) \<Rightarrow> real \<Rightarrow> int \<Rightarrow> segment list \<Rightarrow> point list list" where
  "clusterLocations distance epsilon minPoints segments =
     (let dataset = dataset_of segments;
          clusters = dbscan_run distance epsilon minPoints dataset
      in map (\<lambda>cluster. map (\<lambda>index. dataset ! index) cluster) clusters)"

subsection \<open>lookupLabel (lines 172--196)\<close>

text \<open>A number of JavaScript is a finite value, \<^verbatim>\<open>Infinity\<close> or \<^verbatim>\<open>NaN\<close>; no number of the
  functions below is negative. The mean of an empty array is \<^verbatim>\<open>0 / 0\<close>, which is
  \<^verbatim>\<open>NaN\<close>.\<close>

datatype jsnumber = Num real | Infinity | NaN

definition avg :: "real list \<Rightarrow> jsnumber" where
  "avg points =
     (if length points = 0 then NaN
      else Num (foldl (\<lambda>sum l. sum + l) 0 points / real (length points)))"

text \<open>
  The geocoding service is outside the program. What
  \<^verbatim>\<open>JSON.parse(request('GET', url).body.toString())\<close> does for a centroid is one of three
  things: the request throws, the body is not JSON and \<^verbatim>\<open>JSON.parse\<close> throws a
  SyntaxError, or a response object is obtained. The response has the shape the geocoding
  service documents.
\<close>

datatype error = RequestError | SyntaxError

record addressComponent =
  long_name :: string
  short_name :: string
  types :: "string list"

record geocodeResult =
  address_components :: "addressComponent list"
  formatted_address :: string

record geocodeResponse =
  status :: string
  results :: "geocodeResult list"

datatype geocodeOutcome = LookupFailure | Unparseable | Parsed geocodeResponse

type_synonym geocoder = "jsnumber \<times> jsnumber \<Rightarrow> geocodeOutcome"

definition typeFilter :: "string \<Rightarrow> addressComponent \<Rightarrow> bool" where
  "typeFilter ty component = (ty \<in> set (types component))"

definition firstByType :: "addressComponent list \<Rightarrow> string \<Rightarrow> addressComponent option" where
  "firstByType components ty = lodash_first (filter (typeFilter ty) components)"

definition lodash_get_long_name :: "addressComponent option \<Rightarrow> string option" where
  "lodash_get_long_name component =
     (case component of None \<Rightarrow> None | Some c \<Rightarrow> Some (long_name c))"

text \<open>Of strings and \<^verbatim>\<open>undefined\<close>, the truthy ones are the non-empty strings.\<close>

fun lodash_filter_truthy_strings :: "string option list \<Rightarrow> string list" where
  "lodash_filter_truthy_strings [] = []"
| "lodash_filter_truthy_strings (None # vs) = lodash_filter_truthy_strings vs"
| "lodash_filter_truthy_strings (Some v # vs) =
     (if v = [] then lodash_filter_truthy_strings vs else v # lodash_filter_truthy_strings vs)"

fun join :: "string \<Rightarrow> string list \<Rightarrow> string" where
  "join sep [] = []"
| "join sep [v] = v"
| "join sep (v # w # vs) = v @ sep @ join sep (w # vs)"

text \<open>Lines 180--195: the request for a centroid and the label read from the response.\<close>

definition resolveLabel :: "geocoder \<Rightarrow> jsnumber \<times> jsnumber \<Rightarrow> error + string" where
  "resolveLabel geocode centroid =
     (case geocode centroid of
        LookupFailure \<Rightarrow> Inl RequestError
      | Unparseable \<Rightarrow> Inl SyntaxError
      | Parsed responseJson \<Rightarrow>
          if status responseJson = ''OK''
          then (let components = concat (map address_components (results responseJson));
                    city = lodash_get_long_name (firstByType components ''locality'');
                    region = lodash_get_long_name
                               (firstByType components ''administrative_area_level_1'')
                in Inr (join '', '' (lodash_filter_truthy_strings [city, region])))
          else Inr [])"

definition lookupLabel :: "geocoder \<Rightarrow> point list \<Rightarrow> error + string" where
  "lookupLabel geocode controlPoints =
     (let lats = map lat controlPoints;
          lons = map lon controlPoints;
          centroid = (avg lats, avg lons)
      in resolveLabel geocode centroid)"

text \<open>The arithmetic mean, as the specification words the centroid.\<close>

definition arithmetic_mean :: "real list \<Rightarrow> real" where
  "arithmetic_mean vs = sum_list vs / real (length vs)"

subsection \<open>Double-precision arithmetic\<close>

text \<open>
  The numbers of JavaScript are the doubles of IEEE 754, and every operation of
  \<^verbatim>\<open>computeSquareDimensions\<close> returns the double nearest to the exact result, a tie going
  to the double with an even significand. A double is an integer multiple of its unit in the
  last place, the significand having 53 bits and the exponent being at least \<open>-1022\<close>
  (below \<open>2\<^sup>-\<^sup>1\<^sup>0\<^sup>2\<^sup>2\<close> the doubles are subnormal and equally spaced).
\<close>

definition round_half_even :: "real \<Rightarrow> int" where
  "round_half_even y =
     (let f = \<lfloor>y\<rfloor>; d = y - of_int f
      in if d < 1 / 2 then f else if 1 / 2 < d then f + 1 else if even f then f else f + 1)"

definition double_exponent :: "real \<Rightarrow> int" where
  "double_exponent x = max \<lfloor>log 2 \<bar>x\<bar>\<rfloor> (- 1022)"

definition ulp :: "real \<Rightarrow> real" where
  "ulp x = 2 powr (of_int (double_exponent x) - 52)"

text \<open>The nearest double, the exponent not being bounded from above.\<close>

definition fl :: "real \<Rightarrow> real" where
  "fl x = of_int (round_half_even (x / ulp x)) * ulp x"

text \<open>The result of an operation whose exact value is \<open>x\<close>: it overflows to
  \<^verbatim>\<open>Infinity\<close> when the nearest double would be \<open>2\<^sup>1\<^sup>0\<^sup>2\<^sup>4\<close> or more.\<close>

definition rnd :: "real \<Rightarrow> jsnumber" where
  "rnd x = (if 2 ^ 1024 \<le> \<bar>fl x\<bar> then Infinity else Num (fl x))"

text \<open>The number that holds a natural number: the nearest double.\<close>

definition number_of :: "nat \<Rightarrow> jsnumber" where
  "number_of n = rnd (real n)"

text \<open>The operators \<^verbatim>\<open>*\<close>, \<^verbatim>\<open>/\<close> and \<^verbatim>\<open>%\<close> on numbers that are not negative. The
  remainder of two finite numbers is exact.\<close>

fun js_times :: "jsnumber \<Rightarrow> jsnumber \<Rightarrow> jsnumber" where
  "js_times (Num a) (Num b) = rnd (a * b)"
| "js_times (Num a) Infinity = (if a = 0 then NaN else Infinity)"
| "js_times Infinity (Num b) = (if b = 0 then NaN else Infinity)"
| "js_times Infinity Infinity = Infinity"
| "js_times NaN b = NaN"
| "js_times a NaN = NaN"

fun js_divide :: "jsnumber \<Rightarrow> jsnumber \<Rightarrow> jsnumber" where
  "js_divide (Num a) (Num b) = (if b = 0 then (if a = 0 then NaN else Infinity) else rnd (a / b))"
| "js_divide (Num a) Infinity = Num 0"
| "js_divide Infinity (Num b) = Infinity"
| "js_divide Infinity Infinity = NaN"
| "js_divide NaN b = NaN"
| "js_divide a NaN = NaN"

fun js_remainder :: "jsnumber \<Rightarrow> jsnumber \<Rightarrow> jsnumber" where
  "js_remainder (Num a) (Num b) = (if b = 0 then NaN else Num (a - b * of_int \<lfloor>a / b\<rfloor>))"
| "js_remainder (Num a) Infinity = Num a"
| "js_remainder Infinity b = NaN"
| "js_remainder NaN b = NaN"
| "js_remainder a NaN = NaN"

text \<open>\<^verbatim>\<open>Math.sqrt\<close> is correctly rounded; \<^verbatim>\<open>Math.floor\<close>, \<^verbatim>\<open>Math.ceil\<close> and
  \<^verbatim>\<open>Math.min\<close> are exact.\<close>

fun Math_sqrt :: "jsnumber \<Rightarrow> jsnumber" where
  "Math_sqrt (Num a) = rnd (sqrt a)"
| "Math_sqrt Infinity = Infinity"
| "Math_sqrt NaN = NaN"

fun Math_floor :: "jsnumber \<Rightarrow> jsnumber" where
  "Math_floor (Num a) = Num (of_int \<lfloor>a\<rfloor>)"
| "Math_floor Infinity = Infinity"
| "Math_floor NaN = NaN"

fun Math_ceil :: "jsnumber \<Rightarrow> jsnumber" where
  "Math_ceil (Num a) = Num (of_int \<lceil>a\<rceil>)"
| "Math_ceil Infinity = Infinity"
| "Math_ceil NaN = NaN"

fun Math_min :: "jsnumber \<Rightarrow> jsnumber \<Rightarrow> jsnumber" where
  "Math_min (Num a) (Num b) = Num (min a b)"
| "Math_min (Num a) Infinity = Num a"
| "Math_min Infinity (Num b) = Num b"
| "Math_min Infinity Infinity = Infinity"
| "Math_min NaN b = NaN"
| "Math_min a NaN = NaN"

subsection \<open>computeSquareDimensions (lines 80--102)\<close>

text \<open>
  The index, the count and the height and the width of the canvas (\<^verbatim>\<open>options.height\<close>,
  \<^verbatim>\<open>options.width\<close>) are natural numbers, held in doubles. The fields of a tile are
  numbers; a finite field is an integer, being a floor, a remainder of integers or the
  double nearest to a product of integers. The model returns \<^const>\<open>None\<close> for a tile with
  a field that is \<^verbatim>\<open>NaN\<close> or \<^verbatim>\<open>Infinity\<close>, as when the count, the height or the width
  is zero. When the side of the tiles is zero, \<^verbatim>\<open>across\<close> is \<^verbatim>\<open>Infinity\<close>, the row
  \<^verbatim>\<open>Math.floor(index / Infinity)\<close> is zero and the column \<^verbatim>\<open>index % Infinity\<close> is the
  index.
\<close>

record square =
  sq_row :: int
  sq_column :: int
  sq_x :: int
  sq_y :: int
  sq_size :: int

fun finite_square ::
  "jsnumber \<Rightarrow> jsnumber \<Rightarrow> jsnumber \<Rightarrow> jsnumber \<Rightarrow> jsnumber \<Rightarrow> square option" where
  "finite_square (Num r) (Num c) (Num x) (Num y) (Num s) =
     Some \<lparr>sq_row = \<lfloor>r\<rfloor>, sq_column = \<lfloor>c\<rfloor>, sq_x = \<lfloor>x\<rfloor>, sq_y = \<lfloor>y\<rfloor>, sq_size = \<lfloor>s\<rfloor>\<rparr>"
| "finite_square r c x y s = None"

definition computeSquareDimensions :: "nat \<Rightarrow> nat \<Rightarrow> nat \<Rightarrow> nat \<Rightarrow> square option" where
  "computeSquareDimensions index count options_height options_width =
     (let area = js_times (number_of options_height) (number_of options_width);
          perSquareArea = js_divide area (number_of count);
          maxSquare = Math_sqrt perSquareArea;
          height = Math_floor (js_divide (number_of options_height)
                     (Math_ceil (js_divide (number_of options_height) maxSquare)));
          width = Math_floor (js_divide (number_of options_width)
                    (Math_ceil (js_divide (number_of options_width) maxSquare)));
          size = Math_min height width;
          across = Math_floor (js_divide (number_of options_width) size);
          row = Math_floor (js_divide (number_of index) across);
          column = js_remainder (number_of index) across
      in finite_square row column (js_times column size) (js_times row size) size)"

text \<open>Lines 56--59: one tile for every index below the number of clusters.\<close>

definition tiles :: "nat \<Rightarrow> nat \<Rightarrow> nat \<Rightarrow> square option list" where
  "tiles count options_height options_width =
     map (\<lambda>index. computeSquareDimensions index count options_height options_width)
       [0..<count]"

text \<open>A point of the canvas is covered by a tile when it lies in the tile's square, the
  left and upper edges included.\<close>

definition covers :: "square \<Rightarrow> real \<Rightarrow> real \<Rightarrow> bool" where
  "covers t px py =
     (real_of_int (sq_x t) \<le> px \<and> px < real_of_int (sq_x t + sq_size t) \<and>
      real_of_int (sq_y t) \<le> py \<and> py < real_of_int (sq_y t + sq_size t))"

subsection \<open>createProjection (lines 156--170)\<close>

text \<open>\<^verbatim>\<open>_.min\<close> and \<^verbatim>\<open>_.max\<close> walk the array and keep the first extreme value;
  of an empty array they return \<^verbatim>\<open>undefined\<close>.\<close>

fun baseExtremum :: "(real \<Rightarrow> real \<Rightarrow> bool) \<Rightarrow> real option \<Rightarrow> real list \<Rightarrow> real option" where
  "baseExtremum comparator computed [] = computed"
| "baseExtremum comparator None (v # vs) = baseExtremum comparator (Some v) vs"
| "baseExtremum comparator (Some c) (v # vs) =
     baseExtremum comparator (if comparator v c then Some v else Some c) vs"

definition lodash_min :: "real list \<Rightarrow> real option" where
  "lodash_min vs = baseExtremum (\<lambda>v other. v < other) None vs"

definition lodash_max :: "real list \<Rightarrow> real option" where
  "lodash_max vs = baseExtremum (\<lambda>v other. v > other) None vs"

text \<open>The projection of the drawing library is opaque; the model records what the source
  hands to it: the line string to fit, the extent to fit it to, and the clip extent.\<close>

record projection =
  fit_coordinates :: "(real option \<times> real option) list"
  fit_extent :: "(real \<times> real) \<times> (real \<times> real)"
  clip_extent :: "(real \<times> real) \<times> (real \<times> real)"

definition createProjection :: "point list \<Rightarrow> real \<Rightarrow> real \<Rightarrow> projection" where
  "createProjection controlPoints height width =
     (let lats = map lat controlPoints;
          lons = map lon controlPoints;
          topLeft = (lodash_min lons, lodash_max lats);
          bottomRight = (lodash_max lons, lodash_min lats)
      in \<lparr>fit_coordinates = [topLeft, bottomRight],
          fit_extent = ((width * 0.2, height * 0.2), (width * 0.8, height * 0.8)),
          clip_extent = ((0, 0), (width, height))\<rparr>)"

subsection \<open>The handler: ranking, filtering and limiting the clusters (lines 38--52)\<close>

record cluster =
  label :: string
  controlPoints :: "point list"

text \<open>
  \<^verbatim>\<open>_.sortBy\<close> pairs every element with its criterion and its index, sorts the pairs by
  criterion and, for equal criteria, by index, and returns the elements. No two pairs
  compare equal, so the result does not depend on the sorting algorithm.
\<close>

definition lodash_sortBy :: "('a \<Rightarrow> 'k::linorder) \<Rightarrow> 'a list \<Rightarrow> 'a list" where
  "lodash_sortBy iteratee collection =
     map snd (sort_key (\<lambda>(index, v). (iteratee v, index)) (enumerate 0 collection))"

text \<open>Mapping a function that may throw: the first exception ends the map.\<close>

fun map_throwing :: "('a \<Rightarrow> 'e + 'b) \<Rightarrow> 'a list \<Rightarrow> 'e + 'b list" where
  "map_throwing f [] = Inr []"
| "map_throwing f (v # vs) =
     (case f v of
        Inl e \<Rightarrow> Inl e
      | Inr w \<Rightarrow> (case map_throwing f vs of Inl e \<Rightarrow> Inl e | Inr ws \<Rightarrow> Inr (w # ws)))"

definition labelled :: "geocoder \<Rightarrow> point list \<Rightarrow> error + cluster" where
  "labelled geocode points =
     (case lookupLabel geocode points of
        Inl e \<Rightarrow> Inl e
      | Inr l \<Rightarrow> Inr \<lparr>label = l, controlPoints = points\<rparr>)"

text \<open>Lines 38--45; \<open>groups\<close> is the result of \<^verbatim>\<open>clusterLocations\<close>, which the
  source names \<^verbatim>\<open>controlPoints\<close>.\<close>

definition rankClusters :: "geocoder \<Rightarrow> point list list \<Rightarrow> error + cluster list" where
  "rankClusters geocode groups =
     map_throwing (labelled geocode)
       (lodash_sortBy (\<lambda>points. - int (length points)) groups)"

text \<open>
  A string is a list of characters with codes below 256, that is of the characters
  U+0000 to U+00FF of Unicode (ASCII and the Latin-1 supplement); strings with other
  characters are outside the model. On these strings \<^verbatim>\<open>toLowerCase\<close> works character
  by character: the letters A to Z (codes 65 to 90) and the upper-case letters U+00C0 to
  U+00DE other than the multiplication sign U+00D7 (codes 192 to 222 without 215) are
  moved up by 32, and every other character is left as it is.
\<close>

definition lower_char :: "char \<Rightarrow> char" where
  "lower_char c =
     (let n = (of_char c :: nat)
      in if (65 \<le> n \<and> n \<le> 90) \<or> (192 \<le> n \<and> n \<le> 222 \<and> n \<noteq> 215)
         then char_of (n + 32) else c)"

definition toLowerCase :: "string \<Rightarrow> string" where
  "toLowerCase s = map lower_char s"






text \<open>\<^verbatim>\<open>s.indexOf(t)\<close>: the first position at which \<open>t\<close> starts in \<open>s\<close>, or \<open>-1\<close>.\<close>

fun indexOf_from :: "string \<Rightarrow> string \<Rightarrow> nat \<Rightarrow> int" where
  "indexOf_from [] t i = (if t = [] then int i else - 1)"
| "indexOf_from (c # s) t i =
     (if prefix t (c # s) then int i else indexOf_from s t (Suc i))"

definition indexOf :: "string \<Rightarrow> string \<Rightarrow> int" where
  "indexOf s t = indexOf_from s t 0"

text \<open>Lines 47--50. The option is absent (\<^const>\<open>None\<close>) or a string; the empty string is
  falsy, and so is \<^verbatim>\<open>c.label\<close> when it is empty.\<close>

definition filterClusters :: "string option \<Rightarrow> cluster list \<Rightarrow> cluster list" where
  "filterClusters flt clusters =
     (case flt of
        None \<Rightarrow> clusters
      | Some f \<Rightarrow>
          if f = [] then clusters
          else filter (\<lambda>c. indexOf (toLowerCase (if label c = [] then [] else label c))
                              (toLowerCase f) > - 1) clusters)"

text \<open>Line 52. \<^verbatim>\<open>_.take(clusters, n)\<close> takes one element when \<open>n\<close> is undefined and none
  when \<open>n\<close> is negative.\<close>

definition lodash_take :: "'a list \<Rightarrow> int option \<Rightarrow> 'a list" where
  "lodash_take vs n = (case n of None \<Rightarrow> take 1 vs | Some k \<Rightarrow> take (nat k) vs)"

definition selectClusters ::
  "geocoder \<Rightarrow> string option \<Rightarrow> int option \<Rightarrow> point list list \<Rightarrow> error + cluster list" where
  "selectClusters geocode flt limit groups =
     (case rankClusters geocode groups of
        Inl e \<Rightarrow> Inl e
      | Inr clusters \<Rightarrow> Inr (lodash_take (filterClusters flt clusters) limit))"

text \<open>Lines 35--36: the segments of one activity, when the option is given.\<close>

definition activitySegments :: "string option \<Rightarrow> segment list \<Rightarrow> segment list" where
  "activitySegments act segments =
     (case act of
        None \<Rightarrow> segments
      | Some a \<Rightarrow> if a = [] then segments else filter (\<lambda>s. activity s = a) segments)"

subsection \<open>Example data\<close>

text \<open>A response of the geocoding service for a point in Berlin, shortened.\<close>

definition berlin :: geocodeResponse where
  "berlin = \<lparr>status = ''OK'', results =
     [\<lparr>address_components =
        [\<lparr>long_name = ''Mitte'', short_name = ''Mitte'', types = [''sublocality'', ''political'']\<rparr>,
         \<lparr>long_name = ''Berlin'', short_name = ''Berlin'', types = [''locality'', ''political'']\<rparr>,
         \<lparr>long_name = ''Berlin'', short_name = ''BE'',
          types = [''administrative_area_level_1'', ''political'']\<rparr>],
       formatted_address = ''Berlin, Germany''\<rparr>]\<rparr>"





text \<open>A geocoder that finds nothing, and three points.\<close>

definition no_results :: geocoder where
  "no_results = (\<lambda>centroid. Parsed \<lparr>status = ''ZERO_RESULTS'', results = []\<rparr>)"

definition point_a :: point where "point_a = \<lparr>lat = 52, lon = 13\<rparr>"
definition point_b :: point where "point_b = \<lparr>lat = 53, lon = 10\<rparr>"
definition point_c :: point where "point_c = \<lparr>lat = 48, lon = 11\<rparr>"

text \<open>
  Seven points on the equator and the segments they are the endpoints of. On the equator
  a degree of longitude is about 111195 metres of great-circle distance.
\<close>

definition equator_distance :: "point \<Rightarrow> point \<Rightarrow> real" where
  "equator_distance a b = 111195 * \<bar>lon a - lon b\<bar>"

definition on_equator :: "real \<Rightarrow> point" where
  "on_equator l = \<lparr>lat = 0, lon = l\<rparr>"

definition line_dataset :: "point list" where
  "line_dataset =
     [on_equator 0, on_equator 0.01, on_equator 0.07, on_equator 0.14,
      on_equator 0.21, on_equator 0.28, on_equator 0.29]"

definition track_on_equator :: "real \<Rightarrow> trackPoint" where
  "track_on_equator l = \<lparr>tp_lat = 0, tp_lon = l, tp_time = ''20150101T120000Z''\<rparr>"

definition line_segments :: "segment list" where
  "line_segments =
     [\<lparr>segType = ''move'', activity = ''walking'',
       trackPoints = [track_on_equator 0, track_on_equator 0.005, track_on_equator 0.01]\<rparr>,
      \<lparr>segType = ''place'', activity = [], trackPoints = []\<rparr>,
      \<lparr>segType = ''move'', activity = ''cycling'',
       trackPoints = [track_on_equator 0.07, track_on_equator 0.14]\<rparr>,
      \<lparr>segType = ''move'', activity = ''cycling'',
       trackPoints = [track_on_equator 0.21, track_on_equator 0.28]\<rparr>,
      \<lparr>segType = ''move'', activity = ''walking'', trackPoints = [track_on_equator 0.29]\<rparr>]"


section \<open>Verification\<close>

subsection \<open>The dataset\<close>

lemma lodash_filter_truthy_append:
  "lodash_filter_truthy (vs @ ws) = lodash_filter_truthy vs @ lodash_filter_truthy ws"
  by (induction vs rule: lodash_filter_truthy.induct) simp_all

lemma truthy_endpoints:
  "lodash_filter_truthy (endpoints m) =
     (if trackPoints m = [] then [] else [hd (trackPoints m), last (trackPoints m)])"
  by (cases "trackPoints m") (simp_all add: endpoints_def lodash_first_def lodash_last_def)

lemma truthy_endpoints_concat:
  "map pick_lat_lon (lodash_filter_truthy (concat (map endpoints ms))) =
     concat (map (\<lambda>m. [\<lparr>lat = tp_lat (hd (trackPoints m)), lon = tp_lon (hd (trackPoints m))\<rparr>,
                        \<lparr>lat = tp_lat (last (trackPoints m)), lon = tp_lon (last (trackPoints m))\<rparr>])
       (filter (\<lambda>m. trackPoints m \<noteq> []) ms))"
  by (induction ms)
    (simp_all add: lodash_filter_truthy_append truthy_endpoints pick_lat_lon_def)

lemma picked_endpoints_raw:
  "map pick_lat_lon (lodash_filter_truthy (concat (map endpoints (moves_of segments)))) =
     raw_endpoints segments"
  by (simp add: truthy_endpoints_concat moves_of_def raw_endpoints_def conj_commute)

lemma set_raw_endpoints:
  "set (raw_endpoints segments) =
     {\<lparr>lat = tp_lat t, lon = tp_lon t\<rparr> | t m.
        m \<in> set segments \<and> segType m = ''move'' \<and> trackPoints m \<noteq> [] \<and>
        (t = hd (trackPoints m) \<or> t = last (trackPoints m))}"
  by (auto simp: raw_endpoints_def)

lemma inj_values_key: "values_key a = values_key b \<longleftrightarrow> a = b"
  by (cases a, cases b) (simp add: values_key_def)

lemma remdups_snoc: "remdups (ys @ [v]) = filter (\<lambda>y. y \<noteq> v) (remdups ys) @ [v]"
  by (induction ys) auto

lemma baseUniq_first_occurrences:
  assumes inj: "\<And>a b. f a = f b \<longleftrightarrow> a = b"
  shows "baseUniq f seen vs = first_occurrences (filter (\<lambda>v. f v \<notin> set seen) vs)"
proof (induction vs arbitrary: seen)
  case Nil
  show ?case by (simp add: first_occurrences_def)
next
  case (Cons v vs)
  show ?case
  proof (cases "f v \<in> set seen")
    case True
    then show ?thesis using Cons.IH [of seen] by simp
  next
    case False
    have "first_occurrences (v # filter (\<lambda>w. f w \<notin> set seen) vs) =
          v # first_occurrences (filter (\<lambda>w. w \<noteq> v) (filter (\<lambda>w. f w \<notin> set seen) vs))"
      by (simp add: first_occurrences_def remdups_snoc rev_filter remdups_filter)
    also have "filter (\<lambda>w. w \<noteq> v) (filter (\<lambda>w. f w \<notin> set seen) vs) =
               filter (\<lambda>w. f w \<notin> set (seen @ [f v])) vs"
      by (auto simp: inj intro: filter_cong)
    finally show ?thesis using False Cons.IH [of "seen @ [f v]"] by simp
  qed
qed

lemma first_occurrences_Cons:
  "first_occurrences (v # vs) = v # filter (\<lambda>w. w \<noteq> v) (first_occurrences vs)"
  by (simp add: first_occurrences_def remdups_snoc rev_filter)

lemma dataset_of_first_occurrences:
  "dataset_of segments = first_occurrences (raw_endpoints segments)"
  unfolding dataset_of_def lodash_uniqBy_def picked_endpoints_raw
  using baseUniq_first_occurrences [of values_key "[]" "raw_endpoints segments"]
  by (simp add: inj_values_key)

lemma set_first_occurrences: "set (first_occurrences vs) = set vs"
  by (simp add: first_occurrences_def)

lemma distinct_first_occurrences: "distinct (first_occurrences vs)"
  by (simp add: first_occurrences_def)

lemma count_list_distinct:
  "distinct vs \<Longrightarrow> count_list vs v = (if v \<in> set vs then 1 else 0)"
  by (induction vs) auto

text \<open>
  Claim C6. The dataset built for clustering is the list of the first and the last track
  point of every segment of type move, reduced to the pair of its latitude and its
  longitude, with every point kept once, at its first occurrence: it has no duplicates,
  its elements are exactly the pairs of latitude and longitude of the first and last track
  points of the move segments, and every such pair, however often it occurs among the
  endpoints, is one entry.
\<close>

theorem C6_dataset:
  "dataset_of segments = first_occurrences (raw_endpoints segments) \<and>
   distinct (dataset_of segments) \<and>
   set (dataset_of segments) =
     {\<lparr>lat = tp_lat t, lon = tp_lon t\<rparr> | t m.
        m \<in> set segments \<and> segType m = ''move'' \<and> trackPoints m \<noteq> [] \<and>
        (t = hd (trackPoints m) \<or> t = last (trackPoints m))} \<and>
   count_list (dataset_of segments) p = (if p \<in> set (raw_endpoints segments) then 1 else 0)"
  using count_list_distinct [of "first_occurrences (raw_endpoints segments)" p]
  by (simp only: dataset_of_first_occurrences set_first_occurrences distinct_first_occurrences
      set_raw_endpoints [symmetric])

text \<open>
  Claim C10. A segment whose list of track points is empty has two undefined endpoints,
  both are filtered out, and the dataset is the one built without the segment. The
  construction is a total function: it has no failing branch.
\<close>

theorem C10_empty_track:
  "lodash_filter_truthy (endpoints (m\<lparr>trackPoints := []\<rparr>)) = [] \<and>
   dataset_of (before @ [m\<lparr>trackPoints := []\<rparr>] @ after) = dataset_of (before @ after)"
  by (simp add: truthy_endpoints dataset_of_def moves_of_def lodash_filter_truthy_append)

subsection \<open>createProjection\<close>

lemma Min_insert_above:
  fixes c :: real
  assumes "finite A" and "v \<in> A" and "v \<le> c"
  shows "Min (insert c A) = Min A"
proof -
  from assms have "A \<noteq> {}" by blast
  with assms have "Min (insert c A) = min c (Min A)" by (intro Min_insert)
  moreover from assms have "Min A \<le> v" by (intro Min_le)
  with assms have "Min A \<le> c" by linarith
  ultimately show ?thesis by (simp only: min_absorb2)
qed

lemma Max_insert_below:
  fixes c :: real
  assumes "finite A" and "v \<in> A" and "c \<le> v"
  shows "Max (insert c A) = Max A"
proof -
  from assms have "A \<noteq> {}" by blast
  with assms have "Max (insert c A) = max c (Max A)" by (intro Max_insert)
  moreover from assms have "v \<le> Max A" by (intro Max_ge)
  with assms have "c \<le> Max A" by linarith
  ultimately show ?thesis by (simp only: max_absorb2)
qed

lemma baseExtremum_min_Some:
  "baseExtremum (\<lambda>v other. v < other) (Some c) vs = Some (Min (insert c (set vs)))"
proof (induction vs arbitrary: c)
  case Nil
  show ?case by simp
next
  case (Cons v vs)
  show ?case
  proof (cases "v < c")
    case True
    then have "Min (insert c (insert v (set vs))) = Min (insert v (set vs))"
      by (intro Min_insert_above [of _ v]) simp_all
    then show ?thesis using True Cons.IH [of v] by (simp del: Min_insert)
  next
    case False
    then have "Min (insert v (insert c (set vs))) = Min (insert c (set vs))"
      by (intro Min_insert_above [of _ c]) simp_all
    then show ?thesis
      using False Cons.IH [of c] by (simp add: insert_commute del: Min_insert)
  qed
qed

lemma baseExtremum_max_Some:
  "baseExtremum (\<lambda>v other. v > other) (Some c) vs = Some (Max (insert c (set vs)))"
proof (induction vs arbitrary: c)
  case Nil
  show ?case by simp
next
  case (Cons v vs)
  show ?case
  proof (cases "v > c")
    case True
    then have "Max (insert c (insert v (set vs))) = Max (insert v (set vs))"
      by (intro Max_insert_below [of _ v]) simp_all
    then show ?thesis using True Cons.IH [of v] by (simp del: Max_insert)
  next
    case False
    then have "Max (insert v (insert c (set vs))) = Max (insert c (set vs))"
      by (intro Max_insert_below [of _ c]) simp_all
    then show ?thesis
      using False Cons.IH [of c] by (simp add: insert_commute del: Max_insert)
  qed
qed

lemma lodash_min_Min: "vs \<noteq> [] \<Longrightarrow> lodash_min vs = Some (Min (set vs))"
  by (cases vs) (simp_all add: lodash_min_def baseExtremum_min_Some)

lemma lodash_max_Max: "vs \<noteq> [] \<Longrightarrow> lodash_max vs = Some (Max (set vs))"
  by (cases vs) (simp_all add: lodash_max_def baseExtremum_max_Some)

text \<open>
  Claim C7. For a non-empty list of control points and a tile of width \<open>w\<close> and height
  \<open>h\<close>, the projection is fitted to the line from (least longitude, greatest latitude)
  to (greatest longitude, least latitude), the extent of the fit is the rectangle from
  \<open>(0.2 w, 0.2 h)\<close> to \<open>(0.8 w, 0.8 h)\<close>, and the clip extent is the rectangle from
  \<open>(0, 0)\<close> to \<open>(w, h)\<close>.
\<close>

theorem C7_projection:
  assumes "ps \<noteq> []"
  shows "createProjection ps h w =
     \<lparr>fit_coordinates =
        [(Some (Min (set (map lon ps))), Some (Max (set (map lat ps)))),
         (Some (Max (set (map lon ps))), Some (Min (set (map lat ps))))],
      fit_extent = ((0.2 * w, 0.2 * h), (0.8 * w, 0.8 * h)),
      clip_extent = ((0, 0), (w, h))\<rparr>"
proof -
  from assms have "map lat ps \<noteq> []" and "map lon ps \<noteq> []" by simp_all
  then have "lodash_min (map lon ps) = Some (Min (set (map lon ps)))"
    and "lodash_max (map lon ps) = Some (Max (set (map lon ps)))"
    and "lodash_min (map lat ps) = Some (Min (set (map lat ps)))"
    and "lodash_max (map lat ps) = Some (Max (set (map lat ps)))"
    by (simp_all add: lodash_min_Min lodash_max_Max)
  then show ?thesis
    unfolding createProjection_def Let_def by (simp only: mult.commute)
qed

text \<open>An instance: two control points and a tile of height 50 and width 100.\<close>

theorem C7_projection_witness:
  "createProjection [\<lparr>lat = 1, lon = 2\<rparr>, \<lparr>lat = 3, lon = 0\<rparr>] 50 100 =
     \<lparr>fit_coordinates = [(Some 0, Some 3), (Some 2, Some 1)],
      fit_extent = ((20, 10), (80, 40)),
      clip_extent = ((0, 0), (100, 50))\<rparr>"
  using C7_projection [of "[\<lparr>lat = 1, lon = 2\<rparr>, \<lparr>lat = 3, lon = 0\<rparr>]" 50 100]
  by simp

subsection \<open>lookupLabel\<close>

lemma foldl_plus_sum_list: "foldl (\<lambda>sum l. sum + l) a vs = a + sum_list (vs :: real list)"
  by (induction vs arbitrary: a) simp_all

lemma avg_mean: "vs \<noteq> [] \<Longrightarrow> avg vs = Num (arithmetic_mean vs)"
  by (simp add: avg_def arithmetic_mean_def foldl_plus_sum_list)

text \<open>
  Claim C9. For a non-empty cluster the label is what the resolver returns for the
  centroid: the arithmetic mean of the latitudes paired with the arithmetic mean of the
  longitudes of the cluster's points.
\<close>

theorem C9_centroid:
  assumes "ps \<noteq> []"
  shows "lookupLabel geocode ps =
     resolveLabel geocode (Num (arithmetic_mean (map lat ps)), Num (arithmetic_mean (map lon ps)))"
  using assms by (simp add: lookupLabel_def avg_mean)

text \<open>An instance: the centroid of two points is looked up, and the label is read from the
  response for it.\<close>

theorem C9_centroid_witness:
  "lookupLabel (\<lambda>c. if c = (Num 52, Num 13) then Parsed berlin else LookupFailure)
     [\<lparr>lat = 51, lon = 12\<rparr>, \<lparr>lat = 53, lon = 14\<rparr>] = Inr ''Berlin, Berlin''"
  using C9_centroid [of "[\<lparr>lat = 51, lon = 12\<rparr>, \<lparr>lat = 53, lon = 14\<rparr>]"
      "\<lambda>c. if c = (Num 52, Num 13) then Parsed berlin else LookupFailure"]
  by (simp add: arithmetic_mean_def resolveLabel_def berlin_def firstByType_def typeFilter_def
      lodash_first_def lodash_get_long_name_def)

text \<open>
  Claim C1 says that the lookup never raises and returns the empty string on every
  failure. The source has no exception handler: when the body of the response is not
  JSON the SyntaxError of \<^verbatim>\<open>JSON.parse\<close> leaves \<^verbatim>\<open>lookupLabel\<close>, and so does the
  exception of a request that fails.
\<close>

theorem C1_counterexample:
  "lookupLabel (\<lambda>c. Unparseable) [\<lparr>lat = 52, lon = 13\<rparr>] = Inl SyntaxError \<and>
   lookupLabel (\<lambda>c. LookupFailure) [\<lparr>lat = 52, lon = 13\<rparr>] = Inl RequestError"
  by (simp add: lookupLabel_def resolveLabel_def)

text \<open>
  Claim C1, amended. For every list of control points, when the request returns and its
  body parses to a response whose status is not OK, the lookup returns the empty string.
\<close>

theorem C1_status_not_ok:
  assumes "geocode (avg (map lat ps), avg (map lon ps)) = Parsed r"
    and "status r \<noteq> ''OK''"
  shows "lookupLabel geocode ps = Inr []"
  using assms by (simp add: lookupLabel_def resolveLabel_def Let_def)

text \<open>An instance: the service finds nothing for the centroid.\<close>

theorem C1_status_not_ok_witness:
  "lookupLabel (\<lambda>c. Parsed \<lparr>status = ''ZERO_RESULTS'', results = []\<rparr>) [\<lparr>lat = 52, lon = 13\<rparr>]
     = Inr []"
  using C1_status_not_ok [of "\<lambda>c. Parsed \<lparr>status = ''ZERO_RESULTS'', results = []\<rparr>"
      "[\<lparr>lat = 52, lon = 13\<rparr>]" "\<lparr>status = ''ZERO_RESULTS'', results = []\<rparr>"]
  by simp

subsection \<open>The label filter\<close>

















subsection \<open>The ranking\<close>

lemma map_snd_filter_enumerate:
  "map snd (filter (\<lambda>(i, v). P v) (enumerate n vs)) = filter P vs"
  by (induction vs arbitrary: n) simp_all

lemma sorted_criteria_of_equal:
  fixes f :: "'a \<Rightarrow> 'k::linorder"
  shows "sorted (map (\<lambda>(i :: nat, v). (f v, i)) (filter (\<lambda>(i, v). f v = k) (enumerate n vs)))"
proof -
  let ?F = "filter (\<lambda>(i, v). f v = k) (enumerate n vs)"
  have "sorted (map fst (enumerate n vs))" by simp
  then have "sorted (map fst ?F)" by (rule sorted_filter)
  then have sorted: "sorted (map (\<lambda>p. (k, fst p)) ?F)"
    by (simp add: sorted_map sorted_wrt_iff_nth_less less_eq_prod_def)
  have eq: "map (\<lambda>(i, v). (f v, i)) ?F = map (\<lambda>p. (k, fst p)) ?F"
    by (rule map_cong) auto
  show ?thesis unfolding eq by (rule sorted)
qed

lemma sorted_map_fst:
  fixes ps :: "('k::linorder \<times> nat) list"
  shows "sorted ps \<Longrightarrow> sorted (map fst ps)"
  by (induction ps) (auto simp: less_eq_prod_def)

lemma lodash_sortBy_stable:
  fixes f :: "'a \<Rightarrow> 'k::linorder"
  shows "filter (\<lambda>v. f v = k) (lodash_sortBy f vs) = filter (\<lambda>v. f v = k) vs"
proof -
  let ?g = "\<lambda>(i :: nat, v). (f v, i)"
  let ?P = "\<lambda>(i :: nat, v). f v = k"
  have "filter (\<lambda>v. f v = k) (lodash_sortBy f vs) =
        map snd (filter ?P (sort_key ?g (enumerate 0 vs)))"
    by (simp add: lodash_sortBy_def filter_map comp_def case_prod_unfold)
  also have "filter ?P (sort_key ?g (enumerate 0 vs)) = sort_key ?g (filter ?P (enumerate 0 vs))"
    by (rule filter_sort)
  also have "\<dots> = filter ?P (enumerate 0 vs)"
    by (rule sort_key_id_if_sorted) (rule sorted_criteria_of_equal)
  also have "map snd \<dots> = filter (\<lambda>v. f v = k) vs"
    by (rule map_snd_filter_enumerate)
  finally show ?thesis .
qed

lemma lodash_sortBy_sorted:
  fixes f :: "'a \<Rightarrow> 'k::linorder"
  shows "sorted (map f (lodash_sortBy f vs))"
proof -
  let ?g = "\<lambda>(i :: nat, v). (f v, i)"
  let ?S = "sort_key ?g (enumerate 0 vs)"
  have "sorted (map ?g ?S)" by (rule sorted_sort_key)
  then have sorted: "sorted (map fst (map ?g ?S))"
    by (rule sorted_map_fst)
  have eq: "map fst (map ?g ?S) = map f (map snd ?S)"
    by (simp add: comp_def case_prod_unfold)
  show ?thesis
    unfolding lodash_sortBy_def using sorted unfolding eq .
qed

lemma map_throwing_labelled:
  "map_throwing (labelled geocode) groups = Inr out \<Longrightarrow> map controlPoints out = groups"
proof (induction groups arbitrary: out)
  case Nil
  then show ?case by simp
next
  case (Cons g groups)
  then show ?case
    by (auto simp: labelled_def split: sum.splits)
qed

text \<open>
  Claim C4. When every label lookup returns, the ranked clusters are in descending order
  of their number of points, and for every size the clusters of that size are in the
  order in which the clustering found them.
\<close>

theorem C4_ranking:
  assumes "rankClusters geocode groups = Inr out"
  shows "sorted_wrt (\<lambda>a b. length (controlPoints a) \<ge> length (controlPoints b)) out \<and>
         (\<forall>k. filter (\<lambda>points. length points = k) (map controlPoints out) =
              filter (\<lambda>points. length points = k) groups)"
proof -
  let ?f = "\<lambda>points :: point list. - int (length points)"
  from assms have out: "map controlPoints out = lodash_sortBy ?f groups"
    by (simp add: rankClusters_def map_throwing_labelled)
  have "sorted (map ?f (map controlPoints out))"
    unfolding out by (rule lodash_sortBy_sorted)
  then have "sorted_wrt (\<lambda>a b. length (controlPoints a) \<ge> length (controlPoints b)) out"
    by (simp add: sorted_wrt_map comp_def sorted_wrt_iff_nth_less)
  moreover have "filter (\<lambda>points. length points = k) (map controlPoints out) =
                 filter (\<lambda>points. length points = k) groups" for k
    using lodash_sortBy_stable [of ?f "- int k" groups] unfolding out by simp
  ultimately show ?thesis by simp
qed


lemma sortBy_example:
  "lodash_sortBy (\<lambda>points. - int (length points)) [[point_a], [point_a, point_b, point_c], [point_b], [point_a, point_b], [point_c, point_a, point_b]]
     = [[point_a, point_b, point_c], [point_c, point_a, point_b], [point_a, point_b], [point_a], [point_b]]"
  by (simp add: lodash_sortBy_def sort_key_def less_eq_prod_def enumerate_eq_zip upt_rec)

text \<open>An instance: five clusters, two of them of size three and two of size one.\<close>

theorem C4_ranking_witness:
  "sorted_wrt (\<lambda>a b. length (controlPoints a) \<ge> length (controlPoints b))
     [\<lparr>label = [], controlPoints = [point_a, point_b, point_c]\<rparr>, \<lparr>label = [], controlPoints = [point_c, point_a, point_b]\<rparr>,
      \<lparr>label = [], controlPoints = [point_a, point_b]\<rparr>, \<lparr>label = [], controlPoints = [point_a]\<rparr>,
      \<lparr>label = [], controlPoints = [point_b]\<rparr>] \<and>
   (\<forall>k. filter (\<lambda>points. length points = k)
          (map controlPoints
            [\<lparr>label = [], controlPoints = [point_a, point_b, point_c]\<rparr>, \<lparr>label = [], controlPoints = [point_c, point_a, point_b]\<rparr>,
             \<lparr>label = [], controlPoints = [point_a, point_b]\<rparr>, \<lparr>label = [], controlPoints = [point_a]\<rparr>,
             \<lparr>label = [], controlPoints = [point_b]\<rparr>]) =
        filter (\<lambda>points. length points = k) [[point_a], [point_a, point_b, point_c], [point_b], [point_a, point_b], [point_c, point_a, point_b]])"
proof -
  have "rankClusters no_results [[point_a], [point_a, point_b, point_c], [point_b], [point_a, point_b], [point_c, point_a, point_b]] =
        Inr [\<lparr>label = [], controlPoints = [point_a, point_b, point_c]\<rparr>, \<lparr>label = [], controlPoints = [point_c, point_a, point_b]\<rparr>,
      \<lparr>label = [], controlPoints = [point_a, point_b]\<rparr>, \<lparr>label = [], controlPoints = [point_a]\<rparr>,
      \<lparr>label = [], controlPoints = [point_b]\<rparr>]"
    unfolding rankClusters_def sortBy_example
    by (simp add: labelled_def lookupLabel_def resolveLabel_def no_results_def)
  then show ?thesis by (rule C4_ranking)
qed

subsection \<open>The layout\<close>

lemma across_ge:
  fixes w sz cw :: int
  assumes "0 < sz" and "cw * sz \<le> w"
  shows "cw \<le> w div sz"
proof -
  have "(cw * sz) div sz \<le> w div sz"
    using assms by (intro zdiv_mono1) simp_all
  then show ?thesis using assms by simp
qed

lemma div_mult_le_int:
  fixes a b :: int
  assumes "0 < b"
  shows "(a div b) * b \<le> a"
  using assms by (metis mult.commute pos_mod_sign cancel_div_mod_rules(2) add.commute le_add_same_cancel1 mult_div_mod_eq)

lemma grid_bounds:
  fixes h w c ch cw i sz across :: int
  assumes ch: "1 \<le> ch" and cw: "1 \<le> cw" and cover: "c \<le> ch * cw"
    and i: "0 \<le> i" "i < c"
    and sz: "sz = min (h div ch) (w div cw)" "0 < sz"
    and across: "across = w div sz"
  shows "0 \<le> (i mod across) * sz \<and> 0 \<le> (i div across) * sz \<and>
         (i mod across) * sz + sz \<le> w \<and> (i div across) * sz + sz \<le> h"
proof -
  have szh: "sz \<le> h div ch" and szw: "sz \<le> w div cw" using sz by simp_all
  have "cw * sz \<le> cw * (w div cw)" using szw cw by (intro mult_left_mono) simp_all
  also have "\<dots> \<le> w" using div_mult_le_int [of cw w] cw by (simp add: mult.commute)
  finally have "cw \<le> across" unfolding across using sz(2) by (intro across_ge)
  then have apos: "0 < across" using cw by simp
  have col: "0 \<le> i mod across" "i mod across + 1 \<le> across"
    using pos_mod_sign [OF apos, of i] pos_mod_bound [OF apos, of i] by linarith+
  have "(i mod across + 1) * sz \<le> across * sz"
    using col sz(2) by (intro mult_right_mono) simp_all
  also have "\<dots> \<le> w" unfolding across using div_mult_le_int [of sz w] sz(2) by simp
  finally have x: "(i mod across) * sz + sz \<le> w" by (simp add: algebra_simps)
  have row0: "0 \<le> i div across" using i apos by (simp add: pos_imp_zdiv_nonneg_iff)
  have "i div across \<le> i div cw"
    using i cw \<open>cw \<le> across\<close> by (intro zdiv_mono2) simp_all
  moreover have "i div cw < ch"
  proof -
    have "i < ch * cw" using i cover by simp
    then have "i div cw < (ch * cw) div cw \<or> i div cw = (ch * cw) div cw"
      using cw zdiv_mono1 [of i "ch * cw" cw] by auto
    moreover have "i div cw \<noteq> ch"
    proof
      assume e: "i div cw = ch"
      have "(i div cw) * cw \<le> i" using div_mult_le_int [of cw i] cw by simp
      with e \<open>i < ch * cw\<close> show False by simp
    qed
    ultimately show ?thesis using cw by simp
  qed
  ultimately have "i div across + 1 \<le> ch" by simp
  then have "(i div across + 1) * sz \<le> ch * sz"
    using sz(2) by (intro mult_right_mono) simp_all
  also have "\<dots> \<le> ch * (h div ch)" using szh ch by (intro mult_left_mono) simp_all
  also have "\<dots> \<le> h" using div_mult_le_int [of ch h] ch by (simp add: mult.commute)
  finally have y: "(i div across) * sz + sz \<le> h" by (simp add: algebra_simps)
  from col sz(2) have "0 \<le> (i mod across) * sz" by simp
  moreover from row0 sz(2) have "0 \<le> (i div across) * sz" by simp
  ultimately show ?thesis using x y by simp
qed


text \<open>Rounding to the nearest double: the error is at most half a unit in the last place,
  which is a relative error of \<open>2\<^sup>-\<^sup>5\<^sup>3\<close> for a normal number.\<close>

lemma round_half_even_error: "\<bar>of_int (round_half_even y) - y\<bar> \<le> 1 / 2"
proof -
  have "of_int \<lfloor>y\<rfloor> \<le> y" "y < of_int \<lfloor>y\<rfloor> + 1" by linarith+
  then show ?thesis
    by (auto simp: round_half_even_def Let_def)
qed

lemma round_half_even_of_int: "round_half_even (of_int n) = n"
  by (simp add: round_half_even_def)

lemma ulp_pos: "0 < ulp x"
  by (simp add: ulp_def)

lemma fl_zero: "fl 0 = 0"
  by (simp add: fl_def round_half_even_def)

lemma fl_error: "\<bar>fl x - x\<bar> \<le> ulp x / 2"
proof -
  have "fl x - x = (of_int (round_half_even (x / ulp x)) - x / ulp x) * ulp x"
    using ulp_pos [of x] by (simp add: fl_def field_simps)
  then have "\<bar>fl x - x\<bar> = \<bar>of_int (round_half_even (x / ulp x)) - x / ulp x\<bar> * ulp x"
    using ulp_pos [of x] by (simp add: abs_mult)
  also have "\<dots> \<le> 1 / 2 * ulp x"
    using round_half_even_error [of "x / ulp x"] ulp_pos [of x]
    by (intro mult_right_mono) simp_all
  finally show ?thesis by simp
qed

lemma exponent_bounds:
  assumes "x \<noteq> 0"
  shows "2 powr of_int \<lfloor>log 2 \<bar>x\<bar>\<rfloor> \<le> \<bar>x\<bar>" and "\<bar>x\<bar> < 2 powr (of_int \<lfloor>log 2 \<bar>x\<bar>\<rfloor> + 1)"
proof -
  have pos: "0 < \<bar>x\<bar>" using assms by simp
  have "of_int \<lfloor>log 2 \<bar>x\<bar>\<rfloor> \<le> log 2 \<bar>x\<bar>" by simp
  then have "2 powr of_int \<lfloor>log 2 \<bar>x\<bar>\<rfloor> \<le> 2 powr log 2 \<bar>x\<bar>"
    by (simp only: powr_le_cancel_iff) 
  then show "2 powr of_int \<lfloor>log 2 \<bar>x\<bar>\<rfloor> \<le> \<bar>x\<bar>" using pos by simp
  have "log 2 \<bar>x\<bar> < of_int \<lfloor>log 2 \<bar>x\<bar>\<rfloor> + 1" by linarith
  then have "2 powr log 2 \<bar>x\<bar> < 2 powr (of_int \<lfloor>log 2 \<bar>x\<bar>\<rfloor> + 1)"
    by (simp only: powr_less_cancel_iff)
  then show "\<bar>x\<bar> < 2 powr (of_int \<lfloor>log 2 \<bar>x\<bar>\<rfloor> + 1)" using pos by simp
qed

text \<open>The exponent of a number between two powers of two.\<close>

lemma floor_log2_eq:
  assumes "2 powr of_int e \<le> \<bar>x\<bar>" and "\<bar>x\<bar> < 2 powr (of_int e + 1)"
  shows "\<lfloor>log 2 \<bar>x\<bar>\<rfloor> = e"
proof -
  have pos: "0 < \<bar>x\<bar>" using assms(1) powr_gt_zero [of 2 "of_int e"] by linarith
  have "of_int e \<le> log 2 \<bar>x\<bar>"
    using assms(1) pos by (simp add: le_log_iff)
  moreover have "log 2 \<bar>x\<bar> < of_int e + 1"
    using assms(2) pos by (simp add: log_less_iff)
  ultimately show ?thesis by linarith
qed

lemma ulp_eq:
  assumes "2 powr of_int e \<le> \<bar>x\<bar>" and "\<bar>x\<bar> < 2 powr (of_int e + 1)" and "- 1022 \<le> e"
  shows "ulp x = 2 powr (of_int e - 52)"
  using floor_log2_eq [OF assms(1,2)] assms(3) by (simp add: ulp_def double_exponent_def)

lemma ulp_le:
  assumes "2 powr (- 1022) \<le> \<bar>x\<bar>"
  shows "ulp x \<le> \<bar>x\<bar> * 2 powr (- 52)"
proof -
  have x: "x \<noteq> 0" using assms powr_gt_zero [of 2 "- 1022"] by auto
  have "- 1022 \<le> log 2 \<bar>x\<bar>"
    using assms x by (simp add: le_log_iff)
  then have "- 1022 \<le> \<lfloor>log 2 \<bar>x\<bar>\<rfloor>" by linarith
  then have "ulp x = 2 powr (of_int \<lfloor>log 2 \<bar>x\<bar>\<rfloor> - 52)"
    by (simp add: ulp_def double_exponent_def)
  also have "\<dots> = 2 powr of_int \<lfloor>log 2 \<bar>x\<bar>\<rfloor> * 2 powr (- 52)"
    by (simp add: powr_diff powr_minus field_simps)
  also have "\<dots> \<le> \<bar>x\<bar> * 2 powr (- 52)"
    using exponent_bounds(1) [OF x] by (intro mult_right_mono) simp_all
  finally show ?thesis .
qed

lemma fl_relative:
  assumes "2 powr (- 1022) \<le> x"
  shows "x * (1 - 2 powr (- 53)) \<le> fl x" and "fl x \<le> x * (1 + 2 powr (- 53))"
proof -
  have pos: "0 < x" using assms powr_gt_zero [of 2 "- 1022"] by linarith
  have "ulp x / 2 \<le> x * 2 powr (- 52) / 2"
    using ulp_le [of x] assms pos by simp
  also have "\<dots> = x * 2 powr (- 53)"
    by (simp add: powr_minus)
  finally have "\<bar>fl x - x\<bar> \<le> x * 2 powr (- 53)"
    using fl_error [of x] by linarith
  then show "x * (1 - 2 powr (- 53)) \<le> fl x" and "fl x \<le> x * (1 + 2 powr (- 53))"
    by (simp_all add: algebra_simps abs_le_iff)
qed

lemma fl_exact:
  assumes "x / ulp x = of_int n"
  shows "fl x = x"
proof -
  have "x = of_int n * ulp x"
    using assms ulp_pos [of x] by (simp add: field_simps)
  then show ?thesis
    unfolding fl_def assms round_half_even_of_int by simp
qed

text \<open>An integer below \<open>2\<^sup>5\<^sup>3\<close> is a double, and the floor of the rounded quotient of
  two such integers is their integer quotient.\<close>

lemma fl_int:
  assumes "\<bar>k\<bar> < 2 ^ 53"
  shows "fl (of_int k) = of_int k"
proof (cases "k = 0")
  case True
  then show ?thesis by (simp add: fl_zero)
next
  case False
  let ?x = "real_of_int k"
  define e where "e = \<lfloor>log 2 \<bar>?x\<bar>\<rfloor>"
  have x: "?x \<noteq> 0" using False by simp
  have one: "1 \<le> \<bar>?x\<bar>" using False by (metis abs_ge_zero of_int_abs of_int_1_le_iff abs_0_eq int_one_le_iff_zero_less less_le)
  have lo: "2 powr of_int e \<le> \<bar>?x\<bar>" and hi: "\<bar>?x\<bar> < 2 powr (of_int e + 1)"
    unfolding e_def by (rule exponent_bounds [OF x])+
  have "0 \<le> log 2 \<bar>?x\<bar>" using one by simp
  then have e0: "0 \<le> e" unfolding e_def by simp
  have "\<bar>?x\<bar> < 2 ^ 53" using assms by (metis of_int_abs of_int_less_numeral_power_cancel_iff)
  then have "(2::real) powr of_int e < 2 powr 53" using lo by simp
  then have "of_int e < (53 :: real)" by (simp only: powr_less_cancel_iff)
  then have e52: "e \<le> 52" by linarith
  have ulp: "ulp ?x = 2 powr (of_int e - 52)"
    using lo hi e0 by (intro ulp_eq) simp_all
  have "of_int e - 52 = - real (nat (52 - e))" using e52 by simp
  then have "ulp ?x = 1 / 2 ^ nat (52 - e)"
    unfolding ulp by (simp only: powr_minus powr_realpow) (simp add: field_simps)
  then have "?x / ulp ?x = of_int (k * 2 ^ nat (52 - e))" by simp
  then show ?thesis by (rule fl_exact)
qed

lemma div_le_dividend:
  fixes a b :: int
  assumes "0 \<le> a" and "0 < b"
  shows "a div b \<le> a"
  using zdiv_mono2 [of a 1 b] assms by simp

lemma floor_fl_quotient:
  assumes a: "0 \<le> a" "a < 2 ^ 53" and b: "0 < b" "b \<le> 2 ^ 1000"
  shows "\<lfloor>fl (of_int a / of_int b)\<rfloor> = a div b"
    and "0 \<le> fl (of_int a / of_int b)" and "fl (of_int a / of_int b) < 2 ^ 53"
proof -
  let ?x = "real_of_int a / real_of_int b"
  let ?k = "a div b"
  have both: "of_int ?k \<le> fl ?x \<and> fl ?x < of_int ?k + 1"
  proof (cases "a = 0")
    case True
    then show ?thesis by (simp add: fl_zero)
  next
    case False
    then have a1: "1 \<le> a" using a by simp
    have bpos: "0 < real_of_int b" using b by simp
    have "real_of_int b \<le> 2 ^ 1000" using b by (metis of_int_le_numeral_power_cancel_iff)
    then have "1 / 2 ^ 1000 \<le> 1 / real_of_int b"
      using bpos by (simp add: field_simps)
    also have "\<dots> \<le> ?x" using a1 bpos by (simp add: field_simps)
    finally have "1 / 2 ^ 1000 \<le> ?x" .
    moreover have "(2::real) powr (- 1022) \<le> 1 / 2 ^ 1000"
      by (simp add: powr_minus field_simps)
    ultimately have range: "2 powr (- 1022) \<le> ?x" by linarith
    have u: "(2::real) powr (- 53) = 1 / 2 ^ 53" by (simp add: powr_minus field_simps)
    have au: "real_of_int a * (1 / 2 ^ 53) < 1"
    proof -
      have "real_of_int a < 2 ^ 53" using a by (metis of_int_less_numeral_power_cancel_iff)
      then show ?thesis by simp
    qed
    have eq: "a = ?k * b + a mod b" by simp
    have r: "0 \<le> a mod b" "a mod b < b" using b by simp_all
    have xeq: "?x = of_int ?k + of_int (a mod b) / of_int b"
    proof -
      have "real_of_int a = of_int ?k * of_int b + of_int (a mod b)"
        by (metis eq of_int_add of_int_mult)
      then show ?thesis using bpos by (simp add: field_simps)
    qed
    define d where "d = real_of_int a * (1 / 2 ^ 53) / real_of_int b"
    have d: "d < 1 / real_of_int b"
      unfolding d_def using au bpos by (rule divide_strict_right_mono)
    have up: "?x * (1 + 2 powr (- 53)) = ?x + d" and down: "?x * (1 - 2 powr (- 53)) = ?x - d"
      unfolding d_def u by (simp_all add: field_simps)
    have "fl ?x \<le> ?x + d" using fl_relative(2) [OF range] unfolding up .
    also have "\<dots> < ?x + 1 / of_int b" using d by simp
    also have "\<dots> = of_int ?k + (of_int (a mod b) + 1) / of_int b"
      unfolding xeq by (simp add: add_divide_distrib)
    also have "\<dots> \<le> of_int ?k + 1"
    proof -
      have "real_of_int (a mod b) + 1 \<le> real_of_int b" using r(2) by linarith
      then show ?thesis using bpos by (simp add: field_simps)
    qed
    finally have upper: "fl ?x < of_int ?k + 1" .
    have lower: "of_int ?k \<le> fl ?x"
    proof (cases "a mod b = 0")
      case True
      then have "?x = of_int ?k" using xeq by simp
      moreover have "\<bar>?k\<bar> < 2 ^ 53"
      proof -
        have "0 \<le> ?k" using a b by (simp add: pos_imp_zdiv_nonneg_iff)
        moreover have "?k \<le> a" using a b by (simp add: div_le_dividend)
        ultimately show ?thesis using a by simp
      qed
      ultimately show ?thesis using fl_int [of ?k] by simp
    next
      case False
      then have r1: "1 \<le> a mod b" using r by simp
      have "of_int ?k \<le> of_int ?k + (of_int (a mod b) - 1) / real_of_int b"
        using r1 bpos by simp
      also have "\<dots> = ?x - 1 / of_int b" unfolding xeq by (simp add: diff_divide_distrib)
      also have "\<dots> < ?x - d" using d by simp
      also have "\<dots> \<le> fl ?x" using fl_relative(1) [OF range] unfolding down .
      finally show ?thesis by simp
    qed
    from lower upper show ?thesis by simp
  qed
  then show "\<lfloor>fl ?x\<rfloor> = ?k" by linarith
  have k0: "0 \<le> ?k" and ka: "?k \<le> a"
    using a b by (simp_all add: pos_imp_zdiv_nonneg_iff div_le_dividend)
  from both k0 show "0 \<le> fl ?x" by linarith
  have "real_of_int ?k + 1 \<le> 2 ^ 53"
  proof -
    have "?k + 1 \<le> 2 ^ 53" using ka a by simp
    then show ?thesis by (metis of_int_le_numeral_power_cancel_iff of_int_add of_int_1)
  qed
  with both show "fl ?x < 2 ^ 53" by linarith
qed

lemma fl_bounds:
  assumes "1 / 2 ^ 1000 \<le> x"
  shows "x * (1 - 1 / 2 ^ 53) \<le> fl x" and "fl x \<le> x * (1 + 1 / 2 ^ 53)"
proof -
  have "(2::real) powr (- 1022) \<le> 1 / 2 ^ 1000"
    by (simp add: powr_minus field_simps)
  then have range: "2 powr (- 1022) \<le> x" using assms by linarith
  have u: "(2::real) powr (- 53) = 1 / 2 ^ 53" by (simp add: powr_minus field_simps)
  show "x * (1 - 1 / 2 ^ 53) \<le> fl x" and "fl x \<le> x * (1 + 1 / 2 ^ 53)"
    using fl_relative [OF range] unfolding u by simp_all
qed

text \<open>Rough bounds: a rounded number is between half and twice the number.\<close>

lemma fl_rough:
  assumes "1 / 2 ^ 1000 \<le> x"
  shows "x / 2 \<le> fl x" and "fl x \<le> 2 * x"
proof -
  have pos: "0 \<le> x" using assms by (meson divide_nonneg_pos order_trans zero_le_one zero_less_numeral zero_less_power)
  have "x / 2 \<le> x * (1 - 1 / 2 ^ 53)" using pos by (simp add: field_simps)
  then show "x / 2 \<le> fl x" using fl_bounds(1) [OF assms] by linarith
  have "x * (1 + 1 / 2 ^ 53) \<le> 2 * x" using pos by (simp add: field_simps)
  then show "fl x \<le> 2 * x" using fl_bounds(2) [OF assms] by linarith
qed

lemma rounding_loss: "(1 - 6 / 2 ^ 53) * (1 + 1 / 2 ^ 53) ^ 4 \<le> ((1 - 1 / 2 ^ 53) ^ 2 :: real)"
  by (simp add: field_simps)

text \<open>The side computation: the ranges of the intermediate numbers, for a canvas whose
  height and width are below \<open>2\<^sup>5\<^sup>3\<close> and a count below \<open>2\<^sup>5\<^sup>0\<close>.\<close>

lemma half_le: "l \<le> x \<Longrightarrow> x / 2 \<le> y \<Longrightarrow> l / 2 \<le> (y::real)"
  by linarith

lemma twice_le: "x \<le> b \<Longrightarrow> y \<le> 2 * x \<Longrightarrow> y \<le> 2 * (b::real)"
  by linarith

lemma side_ranges:
  fixes h w c :: nat
  assumes h: "1 \<le> h" "h < 2 ^ 53" and w: "1 \<le> w" "w < 2 ^ 53" and c: "1 \<le> c" "c < 2 ^ 50"
  defines "a \<equiv> fl (real h * real w)"
  defines "p \<equiv> fl (a / real c)"
  defines "m \<equiv> fl (sqrt p)"
  shows "1 / 2 \<le> a" and "a \<le> 2 ^ 107"
    and "1 / 2 ^ 52 \<le> p" and "p \<le> 2 ^ 108"
    and "1 / 2 ^ 27 \<le> m" and "m \<le> 2 ^ 55"
    and "m ^ 2 \<le> real h * real w / real c * (1 + 1 / 2 ^ 53) ^ 4"
proof -
  have rh: "1 \<le> real h" "real h < 2 ^ 53" using h by (simp_all add: of_nat_less_numeral_power_cancel_iff)
  have rw: "1 \<le> real w" "real w < 2 ^ 53" using w by (simp_all add: of_nat_less_numeral_power_cancel_iff)
  have rc: "1 \<le> real c" "real c < 2 ^ 50" using c by (simp_all add: of_nat_less_numeral_power_cancel_iff)
  let ?A = "real h * real w"
  have A1: "1 \<le> ?A" using rh rw by (metis mult_mono mult_1 zero_le_one order_trans)
  have "?A \<le> 2 ^ 53 * 2 ^ 53" using rh rw by (intro mult_mono) simp_all
  then have A2: "?A \<le> 2 ^ 106" by simp
  have Ar: "1 / 2 ^ 1000 \<le> ?A" using A1 by (rule order_trans [rotated]) simp
  show a1: "1 / 2 \<le> a" using half_le [OF A1 fl_rough(1) [OF Ar]] unfolding a_def by simp
  show a2: "a \<le> 2 ^ 107" using twice_le [OF A2 fl_rough(2) [OF Ar]] unfolding a_def by simp
  have a3: "a \<le> ?A * (1 + 1 / 2 ^ 53)" using fl_bounds(2) [OF Ar] unfolding a_def .
  let ?P = "a / real c"
  have "1 / 2 / 2 ^ 50 \<le> ?P" using a1 rc by (intro frac_le) simp_all
  then have P1: "1 / 2 ^ 51 \<le> ?P" by simp
  have "?P \<le> 2 ^ 107 / 1" using a2 rc by (intro frac_le) simp_all
  then have P2: "?P \<le> 2 ^ 107" by simp
  have Pr: "1 / 2 ^ 1000 \<le> ?P" using P1 by (rule order_trans [rotated]) simp
  show p1: "1 / 2 ^ 52 \<le> p" using half_le [OF P1 fl_rough(1) [OF Pr]] unfolding p_def by simp
  show p2: "p \<le> 2 ^ 108" using twice_le [OF P2 fl_rough(2) [OF Pr]] unfolding p_def by simp
  have p3: "p \<le> ?P * (1 + 1 / 2 ^ 53)" using fl_bounds(2) [OF Pr] unfolding p_def .
  have p0: "0 \<le> p" using p1 by (rule order_trans [rotated]) simp
  let ?S = "sqrt p"
  have "(1 / 2 ^ 26)\<^sup>2 \<le> p" using p1 by (simp add: power_divide)
  then have S1: "1 / 2 ^ 26 \<le> ?S" by (rule real_le_rsqrt)
  have "p \<le> (2 ^ 54)\<^sup>2" using p2 by simp
  then have S2: "?S \<le> 2 ^ 54" by (intro real_le_lsqrt) simp_all
  have Sr: "1 / 2 ^ 1000 \<le> ?S" using S1 by (rule order_trans [rotated]) simp
  show m1: "1 / 2 ^ 27 \<le> m" using half_le [OF S1 fl_rough(1) [OF Sr]] unfolding m_def by simp
  show m2: "m \<le> 2 ^ 55" using twice_le [OF S2 fl_rough(2) [OF Sr]] unfolding m_def by simp
  have m3: "m \<le> ?S * (1 + 1 / 2 ^ 53)" using fl_bounds(2) [OF Sr] unfolding m_def .
  have m0: "0 \<le> m" using m1 by (rule order_trans [rotated]) simp
  define v :: real where "v = 1 + 1 / 2 ^ 53"
  have v0: "0 \<le> v" unfolding v_def by simp
  have "m ^ 2 \<le> (?S * v) ^ 2" using m3 m0 unfolding v_def by (intro power_mono) simp_all
  also have "\<dots> = p * v ^ 2" using p0 by (simp add: power_mult_distrib)
  also have "\<dots> \<le> (?P * v) * v ^ 2" using p3 v0 unfolding v_def by (intro mult_right_mono) simp_all
  also have "\<dots> = a * (v ^ 3 / real c)" by (simp add: power3_eq_cube power2_eq_square)
  also have "\<dots> \<le> (?A * v) * (v ^ 3 / real c)" using a3 v0 rc unfolding v_def by (intro mult_right_mono) simp_all
  also have "\<dots> = ?A / real c * v ^ 4" by (simp add: power3_eq_cube power4_eq_xxxx)
  finally show "m ^ 2 \<le> real h * real w / real c * (1 + 1 / 2 ^ 53) ^ 4" unfolding v_def .
qed

text \<open>The product of the two rounded quotients loses less than one unit of the count, so
  the product of their ceilings is at least the count.\<close>

lemma quotient_ranges:
  fixes h :: nat and m :: real
  assumes h: "1 \<le> h" "h < 2 ^ 53" and m: "1 / 2 ^ 27 \<le> m" "m \<le> 2 ^ 55"
  shows "0 < fl (real h / m)" and "fl (real h / m) \<le> 2 ^ 81"
    and "real h / m * (1 - 1 / 2 ^ 53) \<le> fl (real h / m)"
proof -
  have rh: "1 \<le> real h" "real h \<le> 2 ^ 53" using h by (simp_all add: of_nat_less_numeral_power_cancel_iff less_imp_le)
  have m0: "0 < m" using m(1) by (rule less_le_trans [rotated]) simp
  have "1 / 2 ^ 55 \<le> real h / m" using rh m m0 by (intro frac_le) simp_all
  then have Q1: "1 / 2 ^ 55 \<le> real h / m" .
  have "real h / m \<le> 2 ^ 53 / (1 / 2 ^ 27)" using rh m m0 by (intro frac_le) simp_all
  then have Q2: "real h / m \<le> 2 ^ 80" by simp
  have Qr: "1 / 2 ^ 1000 \<le> real h / m" using Q1 by (rule order_trans [rotated]) simp
  have "1 / 2 ^ 55 / 2 \<le> fl (real h / m)" using half_le [OF Q1 fl_rough(1) [OF Qr]] .
  then show "0 < fl (real h / m)" by (rule less_le_trans [rotated]) simp
  show "fl (real h / m) \<le> 2 ^ 81" using twice_le [OF Q2 fl_rough(2) [OF Qr]] by simp
  show "real h / m * (1 - 1 / 2 ^ 53) \<le> fl (real h / m)" using fl_bounds(1) [OF Qr] .
qed

lemma quotients_cover:
  fixes h w c :: nat
  assumes h: "1 \<le> h" "h < 2 ^ 53" and w: "1 \<le> w" "w < 2 ^ 53" and c: "1 \<le> c" "c < 2 ^ 50"
  defines "m \<equiv> fl (sqrt (fl (fl (real h * real w) / real c)))"
  shows "real c - 1 < fl (real h / m) * fl (real w / m)"
proof -
  note r = side_ranges [OF h w c]
  have m1: "1 / 2 ^ 27 \<le> m" and m2: "m \<le> 2 ^ 55"
    and m3: "m ^ 2 \<le> real h * real w / real c * (1 + 1 / 2 ^ 53) ^ 4"
    using r(5-7) unfolding m_def by simp_all
  have m0: "0 < m" using m1 by (rule less_le_trans [rotated]) simp
  have rc: "1 \<le> real c" "real c < 2 ^ 50" using c by (simp_all add: of_nat_less_numeral_power_cancel_iff)
  have c0: "0 < real c" using rc by linarith
  define u :: real where "u = 1 / 2 ^ 53"
  define v :: real where "v = 1 + 1 / 2 ^ 53"
  define A where "A = real h * real w"
  have A0: "0 \<le> A" unfolding A_def by simp
  have u1: "0 \<le> 1 - u" unfolding u_def by simp
  have v0: "0 < v ^ 4" unfolding v_def by simp
  have loss: "(1 - 6 * u) * v ^ 4 \<le> (1 - u) ^ 2" using rounding_loss unfolding u_def v_def by simp
  have small: "6 * u * real c < 1" using rc unfolding u_def by simp
  have qh: "real h / m * (1 - u) \<le> fl (real h / m)" "0 < fl (real h / m)"
    using quotient_ranges [OF h m1 m2] unfolding u_def by simp_all
  have qw: "real w / m * (1 - u) \<le> fl (real w / m)" "0 < fl (real w / m)"
    using quotient_ranges [OF w m1 m2] unfolding u_def by simp_all
  have "m ^ 2 \<le> A / real c * v ^ 4" using m3 unfolding A_def v_def .
  then have "real c * m ^ 2 \<le> A * v ^ 4" using c0 by (simp add: field_simps)
  then have cm: "real c / v ^ 4 \<le> A / m ^ 2" using v0 m0 by (simp add: field_simps)
  have "real c * (1 - 6 * u) = real c * ((1 - 6 * u) * v ^ 4) / v ^ 4" using v0 by simp
  also have "\<dots> \<le> real c * (1 - u) ^ 2 / v ^ 4"
    using loss c0 v0 by (intro divide_right_mono mult_left_mono) simp_all
  also have "\<dots> = real c / v ^ 4 * (1 - u) ^ 2" by simp
  also have "\<dots> \<le> A / m ^ 2 * (1 - u) ^ 2" using cm by (intro mult_right_mono) simp_all
  also have "\<dots> = (real h / m * (1 - u)) * (real w / m * (1 - u))"
    unfolding A_def by (simp add: power2_eq_square)
  also have "\<dots> \<le> fl (real h / m) * fl (real w / m)"
    using qh qw u1 m0 by (intro mult_mono) simp_all
  finally have "real c * (1 - 6 * u) \<le> fl (real h / m) * fl (real w / m)" .
  moreover have "real c - 1 < real c * (1 - 6 * u)" using small by (simp add: algebra_simps)
  ultimately show ?thesis by linarith
qed

lemma ceilings_cover:
  fixes h w c :: nat
  assumes h: "1 \<le> h" "h < 2 ^ 53" and w: "1 \<le> w" "w < 2 ^ 53" and c: "1 \<le> c" "c < 2 ^ 50"
  defines "m \<equiv> fl (sqrt (fl (fl (real h * real w) / real c)))"
  shows "int c \<le> \<lceil>fl (real h / m)\<rceil> * \<lceil>fl (real w / m)\<rceil>"
proof -
  note r = side_ranges [OF h w c]
  have m1: "1 / 2 ^ 27 \<le> m" and m2: "m \<le> 2 ^ 55" using r(5-6) unfolding m_def by simp_all
  let ?qh = "fl (real h / m)" and ?qw = "fl (real w / m)"
  have qh: "0 < ?qh" using quotient_ranges [OF h m1 m2] by simp
  have qw: "0 < ?qw" using quotient_ranges [OF w m1 m2] by simp
  have "real c - 1 < ?qh * ?qw" using quotients_cover [OF h w c] unfolding m_def .
  also have "\<dots> \<le> of_int \<lceil>?qh\<rceil> * of_int \<lceil>?qw\<rceil>"
    using qh qw by (intro mult_mono) (simp_all add: less_imp_le)
  finally have "real c - 1 < of_int (\<lceil>?qh\<rceil> * \<lceil>?qw\<rceil>)" by simp
  then have "real_of_int (int c - 1) < of_int (\<lceil>?qh\<rceil> * \<lceil>?qw\<rceil>)" by simp
  then have "int c - 1 < \<lceil>?qh\<rceil> * \<lceil>?qw\<rceil>" by (simp only: of_int_less_iff)
  then show ?thesis by linarith
qed

text \<open>The operations on numbers in these ranges.\<close>

lemma rnd_Num: "0 \<le> fl x \<Longrightarrow> fl x < 2 ^ 1024 \<Longrightarrow> rnd x = Num (fl x)"
  by (simp add: rnd_def)

lemma rnd_below:
  assumes "0 \<le> fl x" and "fl x \<le> 2 ^ 108"
  shows "rnd x = Num (fl x)"
proof -
  have "(2::real) ^ 108 < 2 ^ 1024" by simp
  then have "fl x < 2 ^ 1024" using assms(2) by (rule le_less_trans [rotated])
  then show ?thesis using assms(1) by (rule rnd_Num [rotated])
qed

lemma rnd_of_int: "0 \<le> k \<Longrightarrow> k < 2 ^ 53 \<Longrightarrow> rnd (of_int k) = Num (of_int k)"
proof -
  assume k: "0 \<le> k" "k < 2 ^ 53"
  then have e: "fl (of_int k) = of_int k" by (intro fl_int) simp
  have "real_of_int k < 2 ^ 53" using k by simp
  then have "real_of_int k \<le> 2 ^ 108" by simp
  then show ?thesis using k by (subst rnd_below) (simp_all add: e)
qed

lemma number_of_safe: "n < 2 ^ 53 \<Longrightarrow> number_of n = Num (real n)"
  using rnd_of_int [of "int n"] by (simp add: number_of_def of_nat_less_numeral_power_cancel_iff)

lemma rnd_quotient:
  assumes "0 \<le> a" "a < 2 ^ 53" "0 < b" "b \<le> 2 ^ 1000"
  shows "Math_floor (rnd (of_int a / of_int b)) = Num (of_int (a div b))"
proof -
  note q = floor_fl_quotient [OF assms]
  have "fl (of_int a / of_int b) \<le> 2 ^ 108" using q(3) by simp
  then have "rnd (of_int a / of_int b) = Num (fl (of_int a / of_int b))"
    using q(2) by (intro rnd_below)
  then show ?thesis using q(1) by simp
qed

lemma safe_integer:
  fixes x :: int and n :: nat
  assumes "x \<le> int n" and "n < 2 ^ 53"
  shows "x < 2 ^ 53" and "x \<le> 2 ^ 1000"
proof -
  have "int n < 2 ^ 53" using assms(2) by simp
  then show "x < 2 ^ 53" using assms(1) by linarith
  moreover have "(2::int) ^ 53 \<le> 2 ^ 1000" by simp
  ultimately show "x \<le> 2 ^ 1000" by linarith
qed

lemma floor_of_int_mult: "\<lfloor>real_of_int a * real_of_int b\<rfloor> = a * b"
  using floor_of_int [of "a * b", where ?'a = real] by simp

lemma ceiling_ranges:
  fixes h :: nat and m :: real
  assumes h: "1 \<le> h" "h < 2 ^ 53" and m: "1 / 2 ^ 27 \<le> m" "m \<le> 2 ^ 55"
  shows "rnd (real h / m) = Num (fl (real h / m))"
    and "1 \<le> \<lceil>fl (real h / m)\<rceil>" and "\<lceil>fl (real h / m)\<rceil> \<le> 2 ^ 1000"
proof -
  note q = quotient_ranges [OF h m]
  have "fl (real h / m) \<le> 2 ^ 108" using q(2) by (rule order_trans) simp
  then show "rnd (real h / m) = Num (fl (real h / m))"
    using q(1) by (intro rnd_below) simp_all
  have "0 < \<lceil>fl (real h / m)\<rceil>" using q(1) by (simp only: zero_less_ceiling)
  then show "1 \<le> \<lceil>fl (real h / m)\<rceil>" by simp
  have "fl (real h / m) \<le> real_of_int (2 ^ 81)" using q(2) by simp
  then have "\<lceil>fl (real h / m)\<rceil> \<le> 2 ^ 81" by (simp only: ceiling_le_iff)
  then show "\<lceil>fl (real h / m)\<rceil> \<le> 2 ^ 1000" by (rule order_trans) simp
qed

lemma side_of_tile:
  fixes h :: nat and m :: real
  assumes h: "1 \<le> h" "h < 2 ^ 53" and m: "1 / 2 ^ 27 \<le> m" "m \<le> 2 ^ 55"
  shows "Math_floor (js_divide (Num (real h)) (Math_ceil (js_divide (Num (real h)) (Num m)))) =
           Num (of_int (int h div \<lceil>fl (real h / m)\<rceil>))"
proof -
  note c = ceiling_ranges [OF h m]
  have m0: "m \<noteq> 0" using m(1) by auto
  have "\<lceil>fl (real h / m)\<rceil> \<noteq> 0" using c(2) by linarith
  then have c0: "real_of_int \<lceil>fl (real h / m)\<rceil> \<noteq> 0" by (simp only: of_int_eq_0_iff not_False_eq_True)
  have "Math_floor (rnd (of_int (int h) / of_int \<lceil>fl (real h / m)\<rceil>)) =
          Num (of_int (int h div \<lceil>fl (real h / m)\<rceil>))"
    using h c(2,3) by (intro rnd_quotient) simp_all
  then show ?thesis using m0 c0 by (simp add: c(1))
qed

lemma square_in_integers:
  assumes c: "1 \<le> count" "count < 2 ^ 50" and h: "1 \<le> height" "height < 2 ^ 53"
    and w: "1 \<le> width" "width < 2 ^ 53" and i: "index < count"
  defines "m \<equiv> fl (sqrt (fl (fl (real height * real width) / real count)))"
  defines "ch \<equiv> \<lceil>fl (real height / m)\<rceil>" and "cw \<equiv> \<lceil>fl (real width / m)\<rceil>"
  defines "sz \<equiv> min (int height div ch) (int width div cw)"
  defines "across \<equiv> int width div sz"
  shows "computeSquareDimensions index count height width =
      (if sz = 0
       then Some \<lparr>sq_row = 0, sq_column = int index, sq_x = 0, sq_y = 0, sq_size = 0\<rparr>
       else Some \<lparr>sq_row = int index div across, sq_column = int index mod across,
                  sq_x = (int index mod across) * sz, sq_y = (int index div across) * sz,
                  sq_size = sz\<rparr>)"
    and "1 \<le> ch" and "1 \<le> cw" and "int count \<le> ch * cw"
proof -
  note r = side_ranges [OF h w c]
  have m1: "1 / 2 ^ 27 \<le> m" and m2: "m \<le> 2 ^ 55" using r(5-6) unfolding m_def by simp_all
  show ch: "1 \<le> ch" unfolding ch_def using ceiling_ranges(2) [OF h m1 m2] .
  show cw: "1 \<le> cw" unfolding cw_def using ceiling_ranges(2) [OF w m1 m2] .
  show cover: "int count \<le> ch * cw" unfolding ch_def cw_def m_def by (rule ceilings_cover [OF h w c])
  have idx: "index < 2 ^ 53" using i c(2) by (rule less_trans [OF _ less_trans]) simp
  have cnt: "count < 2 ^ 53" using c(2) by (rule less_trans) simp
  have n: "number_of height = Num (real height)" "number_of width = Num (real width)"
    "number_of count = Num (real count)" "number_of index = Num (real index)"
    using h(2) w(2) cnt idx by (simp_all only: number_of_safe)
  have a0: "0 \<le> fl (real height * real width)" using r(1) by (rule order_trans [rotated]) simp
  have a2: "fl (real height * real width) \<le> 2 ^ 108" using r(2) by (rule order_trans) simp
  have area: "js_times (Num (real height)) (Num (real width)) = Num (fl (real height * real width))"
    using a0 a2 by (simp add: rnd_below)
  have p0: "0 \<le> fl (fl (real height * real width) / real count)" using r(3) by (rule order_trans [rotated]) simp
  have c0: "real count \<noteq> 0" using c(1) by simp
  have per: "js_divide (Num (fl (real height * real width))) (Num (real count)) =
      Num (fl (fl (real height * real width) / real count))"
    using p0 r(4) c0 by (simp add: rnd_below)
  have m0: "0 \<le> m" using m1 by (rule order_trans [rotated]) simp
  have m3: "m \<le> 2 ^ 108" using m2 by (rule order_trans) simp
  have maxSquare: "Math_sqrt (Num (fl (fl (real height * real width) / real count))) = Num m"
    using m0 m3 unfolding m_def by (simp add: rnd_below)
  have hh: "Math_floor (js_divide (Num (real height)) (Math_ceil (js_divide (Num (real height)) (Num m)))) =
      Num (of_int (int height div ch))"
    unfolding ch_def by (rule side_of_tile [OF h m1 m2])
  have ww: "Math_floor (js_divide (Num (real width)) (Math_ceil (js_divide (Num (real width)) (Num m)))) =
      Num (of_int (int width div cw))"
    unfolding cw_def by (rule side_of_tile [OF w m1 m2])
  have size: "Math_min (Num (of_int (int height div ch))) (Num (of_int (int width div cw))) = Num (of_int sz)"
    unfolding sz_def by (simp add: of_int_min)
  have sz0: "0 \<le> sz" unfolding sz_def using ch cw by (simp add: pos_imp_zdiv_nonneg_iff)
  have prefix: "computeSquareDimensions index count height width =
      (let across = Math_floor (js_divide (Num (real width)) (Num (of_int sz)));
           row = Math_floor (js_divide (Num (real index)) across);
           column = js_remainder (Num (real index)) across
       in finite_square row column (js_times column (Num (of_int sz))) (js_times row (Num (of_int sz)))
            (Num (of_int sz)))"
    unfolding computeSquareDimensions_def Let_def n area per maxSquare hh ww size ..
  show "computeSquareDimensions index count height width =
      (if sz = 0
       then Some \<lparr>sq_row = 0, sq_column = int index, sq_x = 0, sq_y = 0, sq_size = 0\<rparr>
       else Some \<lparr>sq_row = int index div across, sq_column = int index mod across,
                  sq_x = (int index mod across) * sz, sq_y = (int index div across) * sz,
                  sq_size = sz\<rparr>)"
  proof (cases "sz = 0")
    case True
    have w0: "real width \<noteq> 0" using w(1) by simp
    have "rnd 0 = Num 0" using rnd_of_int [of 0] by simp
    then show ?thesis unfolding prefix using True w0 by (simp add: Let_def)
  next
    case False
    with sz0 have szpos: "0 < sz" by simp
    have sz_eq: "sz = min (int height div ch) (int width div cw)" by (simp only: sz_def)
    have across_eq: "across = int width div sz" by (simp only: across_def)
    have i0: "0 \<le> int index" and ic: "int index < int count" using i by simp_all
    have "0 \<le> (int index mod across) * sz \<and> 0 \<le> (int index div across) * sz \<and>
         (int index mod across) * sz + sz \<le> int width \<and>
         (int index div across) * sz + sz \<le> int height"
      using ch cw cover i0 ic sz_eq szpos across_eq by (rule grid_bounds)
    then have g: "0 \<le> (int index mod across) * sz" "0 \<le> (int index div across) * sz"
         "(int index mod across) * sz + sz \<le> int width"
         "(int index div across) * sz + sz \<le> int height"
      by blast+
    have "sz \<le> int width div cw" unfolding sz_def by simp
    also have "\<dots> \<le> int width" using cw by (intro div_le_dividend) simp_all
    finally have szw: "sz \<le> int width" .
    have "1 \<le> int width div sz"
      using szpos szw zdiv_mono1 [of sz "int width" sz] by simp
    then have apos: "0 < across" unfolding across_def by simp
    have "across \<le> int width" unfolding across_def using szpos by (intro div_le_dividend) simp_all
    then have a1000: "across \<le> 2 ^ 1000" using w(2) by (rule safe_integer(2))
    have sz1000: "sz \<le> 2 ^ 1000" using szw w(2) by (rule safe_integer(2))
    have across: "Math_floor (js_divide (Num (real width)) (Num (of_int sz))) = Num (of_int across)"
      using rnd_quotient [of "int width" sz] w(2) szpos sz1000 unfolding across_def by simp
    have row: "Math_floor (js_divide (Num (real index)) (Num (of_int across))) = Num (of_int (int index div across))"
      using rnd_quotient [of "int index" across] idx apos a1000 by simp
    have "real index - real_of_int across * real_of_int \<lfloor>real index / real_of_int across\<rfloor> =
        real_of_int (int index - across * (int index div across))"
      using floor_divide_of_int_eq [of "int index" across, where ?'a = real] by simp
    also have "int index - across * (int index div across) = int index mod across"
      by (simp add: minus_mult_div_eq_mod)
    finally have column: "js_remainder (Num (real index)) (Num (of_int across)) = Num (of_int (int index mod across))"
      using apos by simp
    have "(int index mod across) * sz \<le> int width" using g(3) szpos by linarith
    then have xb: "(int index mod across) * sz < 2 ^ 53" using w(2) by (rule safe_integer(1))
    have "(int index div across) * sz \<le> int height" using g(4) szpos by linarith
    then have yb: "(int index div across) * sz < 2 ^ 53" using h(2) by (rule safe_integer(1))
    have x: "js_times (Num (of_int (int index mod across))) (Num (of_int sz)) =
        Num (of_int ((int index mod across) * sz))"
      using rnd_of_int [OF g(1) xb] by simp
    have y: "js_times (Num (of_int (int index div across))) (Num (of_int sz)) =
        Num (of_int ((int index div across) * sz))"
      using rnd_of_int [OF g(2) yb] by simp
    show ?thesis unfolding prefix Let_def across row column x y using False
      by (simp add: floor_of_int_mult)
  qed
qed

text \<open>
  Claim C2, amended. For a count of at least one and below \<open>2\<^sup>3\<^sup>2\<close> (the count is the
  length of an array), a canvas whose height and width are positive integers below
  \<open>2\<^sup>5\<^sup>3\<close> and an index below the count, the tile has finite fields and lies within the
  canvas: its left and upper edges are not negative, its right edge is at most the width
  and its lower edge at most the height.
\<close>

theorem C2_tiles_within_canvas:
  assumes "1 \<le> count" and "count < 2 ^ 32"
    and "1 \<le> height" and "height < 2 ^ 53" and "1 \<le> width" and "width < 2 ^ 53"
    and "index < count"
  shows "\<exists>t. computeSquareDimensions index count height width = Some t \<and>
           0 \<le> sq_x t \<and> 0 \<le> sq_y t \<and>
           sq_x t + sq_size t \<le> int width \<and> sq_y t + sq_size t \<le> int height"
proof -
  define m where "m = fl (sqrt (fl (fl (real height * real width) / real count)))"
  define ch where "ch = \<lceil>fl (real height / m)\<rceil>"
  define cw where "cw = \<lceil>fl (real width / m)\<rceil>"
  define sz where "sz = min (int height div ch) (int width div cw)"
  define across where "across = int width div sz"
  have c: "count < 2 ^ 50" using assms(2) by (rule less_trans) simp
  note s = square_in_integers [OF assms(1) c assms(3-7),
      folded m_def, folded ch_def cw_def, folded sz_def, folded across_def]
  have sz0: "0 \<le> sz"
    unfolding sz_def using s(2,3) by (simp add: pos_imp_zdiv_nonneg_iff)
  show ?thesis
  proof (cases "sz = 0")
    case True
    then show ?thesis unfolding s(1) by simp
  next
    case False
    with sz0 have szpos: "0 < sz" by simp
    have i0: "0 \<le> int index" and ic: "int index < int count" using assms(7) by simp_all
    have "0 \<le> (int index mod across) * sz \<and> 0 \<le> (int index div across) * sz \<and>
         (int index mod across) * sz + sz \<le> int width \<and>
         (int index div across) * sz + sz \<le> int height"
      using s(2,3,4) i0 ic sz_def szpos across_def by (rule grid_bounds)
    then show ?thesis unfolding s(1) using False by simp
  qed
qed

text \<open>An instance: the last of five tiles on a canvas of height 200 and width 300.\<close>

theorem C2_tiles_within_canvas_witness:
  "\<exists>t. computeSquareDimensions 4 5 200 300 = Some t \<and>
           0 \<le> sq_x t \<and> 0 \<le> sq_y t \<and>
           sq_x t + sq_size t \<le> 300 \<and> sq_y t + sq_size t \<le> 200"
  using C2_tiles_within_canvas [of 5 200 300 4] by simp

text \<open>The doubles of a canvas whose height and width are \<open>3 * 2\<^sup>5\<^sup>3 + 4\<close>, divided by three
  and by the side of the tiles, and the side and twice the side.\<close>

lemma fl_eval:
  assumes "2 powr of_int e \<le> x" and "x < 2 powr (of_int e + 1)" and "- 1022 \<le> e"
  shows "fl x = of_int (round_half_even (x / 2 powr (of_int e - 52))) * 2 powr (of_int e - 52)"
proof -
  have "0 < x" using assms(1) by (rule less_le_trans [rotated]) simp
  then have "\<bar>x\<bar> = x" by simp
  then have "ulp x = 2 powr (of_int e - 52)" using ulp_eq [of e x] assms by simp
  then show ?thesis by (simp add: fl_def)
qed

text \<open>A tie goes to the even significand: \<open>2\<^sup>5\<^sup>3 + 1\<close> is held as \<open>2\<^sup>5\<^sup>3\<close> and
  \<open>2\<^sup>5\<^sup>3 + 3\<close> as \<open>2\<^sup>5\<^sup>3 + 4\<close>.\<close>

lemma number_of_tie:
  "number_of 9007199254740993 = Num 9007199254740992"
  "number_of 9007199254740995 = Num 9007199254740996"
proof -
  have "fl 9007199254740993 = 9007199254740992"
    using fl_eval [of 53 9007199254740993] by (simp add: round_half_even_def)
  then show "number_of 9007199254740993 = Num 9007199254740992"
    by (simp add: number_of_def rnd_def)
  have "fl 9007199254740995 = 9007199254740996"
    using fl_eval [of 53 9007199254740995] by (simp add: round_half_even_def)
  then show "number_of 9007199254740995 = Num 9007199254740996"
    by (simp add: number_of_def rnd_def)
qed

lemma fl_canvas: "fl 27021597764222980 = 27021597764222980"
  using fl_eval [of 54 27021597764222980] by (simp add: round_half_even_def)

lemma fl_third: "fl (27021597764222980 / 3) = 9007199254740994"
  using fl_eval [of 53 "27021597764222980 / 3"] by (simp add: round_half_even_def)

lemma fl_side: "fl 9007199254740994 = 9007199254740994"
  using fl_eval [of 53 9007199254740994] by (simp add: round_half_even_def)

lemma fl_twice: "fl 18014398509481988 = 18014398509481988"
  using fl_eval [of 54 18014398509481988] by (simp add: round_half_even_def)

lemma fl_across: "fl (27021597764222980 / 9007199254740994) = 3"
  using fl_eval [of 1 "27021597764222980 / 9007199254740994"]
  by (simp add: round_half_even_def powr_minus)

lemma fl_close:
  assumes "1 / 2 ^ 1000 \<le> x"
  shows "x * (999 / 1000) \<le> fl x" and "fl x \<le> x * (1001 / 1000)"
proof -
  have pos: "0 \<le> x" using assms by (rule order_trans [rotated]) simp
  have "x * (999 / 1000) \<le> x * (1 - 1 / 2 ^ 53)" using pos by (intro mult_left_mono) simp_all
  then show "x * (999 / 1000) \<le> fl x" using fl_bounds(1) [OF assms] by (rule order_trans)
  have "x * (1 + 1 / 2 ^ 53) \<le> x * (1001 / 1000)" using pos by (intro mult_left_mono) simp_all
  then show "fl x \<le> x * (1001 / 1000)" using fl_bounds(2) [OF assms] by (rule order_trans [rotated])
qed

lemma far_side:
  fixes N a p m :: real
  defines "N \<equiv> 27021597764222980"
  defines "a \<equiv> fl (N * N)"
  defines "p \<equiv> fl (a / 8)"
  defines "m \<equiv> fl (sqrt p)"
  shows "0 \<le> a" and "a < 2 ^ 1024" and "0 \<le> p" and "p < 2 ^ 1024" and "0 < m" and "m < 2 ^ 1024"
    and "0 \<le> fl (N / m)" and "fl (N / m) < 2 ^ 1024" and "\<lceil>fl (N / m)\<rceil> = 3"
proof -
  have A: "1 / 2 ^ 1000 \<le> N * N" unfolding N_def by simp
  have a1: "N * N * (999 / 1000) \<le> a" and a2: "a \<le> N * N * (1001 / 1000)"
    unfolding a_def by (rule fl_close [OF A])+
  have a3: "124 / 1000 * N\<^sup>2 \<le> a / 8" and a4: "a / 8 \<le> 126 / 1000 * N\<^sup>2"
    using a1 a2 unfolding N_def by simp_all
  show "0 \<le> a" using a1 unfolding N_def by simp
  show "a < 2 ^ 1024" using a2 unfolding N_def by simp
  have P: "1 / 2 ^ 1000 \<le> a / 8" using a3 unfolding N_def by simp
  have p1: "a / 8 * (999 / 1000) \<le> p" and p2: "p \<le> a / 8 * (1001 / 1000)"
    unfolding p_def by (rule fl_close [OF P])+
  have p3: "(35 / 100 * N)\<^sup>2 \<le> p" using p1 a3 unfolding N_def by (simp add: power2_eq_square)
  have p4: "p \<le> (36 / 100 * N)\<^sup>2" using p2 a4 unfolding N_def by (simp add: power2_eq_square)
  show "0 \<le> p" using p3 by (rule order_trans [rotated]) simp
  have "(36 / 100 * N)\<^sup>2 < 2 ^ 1024" unfolding N_def by (simp add: power2_eq_square)
  then show "p < 2 ^ 1024" using p4 by (rule le_less_trans [rotated])
  have s1: "35 / 100 * N \<le> sqrt p" using p3 by (rule real_le_rsqrt)
  have s2: "sqrt p \<le> 36 / 100 * N" using p4 unfolding N_def by (intro real_le_lsqrt) simp_all
  have S: "1 / 2 ^ 1000 \<le> sqrt p" using s1 unfolding N_def by simp
  have m1: "sqrt p * (999 / 1000) \<le> m" and m2: "m \<le> sqrt p * (1001 / 1000)"
    unfolding m_def by (rule fl_close [OF S])+
  have N0: "0 \<le> N" unfolding N_def by simp
  have m3: "349 / 1000 * N \<le> m" using m1 s1 N0 by linarith
  have m4: "m \<le> 361 / 1000 * N" using m2 s2 N0 by linarith
  show m0: "0 < m" using m3 unfolding N_def by simp
  show "m < 2 ^ 1024" using m4 unfolding N_def by simp
  have q1: "277 / 100 \<le> N / m" using m4 m0 unfolding N_def by (simp add: field_simps)
  have q2: "N / m \<le> 287 / 100" using m3 m0 unfolding N_def by (simp add: field_simps)
  have Q: "1 / 2 ^ 1000 \<le> N / m" using q1 by (rule order_trans [rotated]) simp
  have f1: "N / m * (999 / 1000) \<le> fl (N / m)" and f2: "fl (N / m) \<le> N / m * (1001 / 1000)"
    by (rule fl_close [OF Q])+
  define Q where "Q = N / m"
  have f3: "2 < fl (N / m)" using f1 q1 unfolding Q_def [symmetric] by linarith
  have f4: "fl (N / m) \<le> 3" using f2 q2 unfolding Q_def [symmetric] by linarith
  show "0 \<le> fl (N / m)" using f3 by linarith
  show "fl (N / m) < 2 ^ 1024" using f4 by (rule le_less_trans) simp
  show "\<lceil>fl (N / m)\<rceil> = 3" using f3 f4 by (intro ceiling_unique) simp_all
qed

lemma square_past_canvas:
  "computeSquareDimensions 7 8 27021597764222980 27021597764222980 =
     Some \<lparr>sq_row = 2, sq_column = 1, sq_x = 9007199254740994, sq_y = 18014398509481988,
           sq_size = 9007199254740994\<rparr>"
proof -
  define N :: real where "N = 27021597764222980"
  define s :: real where "s = 9007199254740994"
  define a where "a = fl (N * N)"
  define p where "p = fl (a / 8)"
  define m where "m = fl (sqrt p)"
  note f = far_side [folded N_def, folded a_def, folded p_def, folded m_def]
  have "rnd 27021597764222980 = Num 27021597764222980" unfolding rnd_def fl_canvas by simp
  then have n: "number_of 27021597764222980 = Num N"
    unfolding number_of_def N_def by simp
  have n8: "number_of 8 = Num 8" and n7: "number_of 7 = Num 7"
    using number_of_safe [of 8] number_of_safe [of 7] by simp_all
  have area: "js_times (Num N) (Num N) = Num a"
    using f(1,2) by (simp add: rnd_def a_def)
  have per: "js_divide (Num a) (Num 8) = Num p"
    using f(3,4) by (simp add: rnd_def p_def)
  have maxSquare: "Math_sqrt (Num p) = Num m"
    using f(5,6) by (simp add: rnd_def m_def)
  have quotient: "js_divide (Num N) (Num m) = Num (fl (N / m))"
    using f(5,7,8) by (simp add: rnd_def)
  have ceil: "Math_ceil (Num (fl (N / m))) = Num 3" by (simp add: f(9))
  have "rnd (N / 3) = Num s" unfolding rnd_def N_def s_def fl_third by simp
  then have third: "js_divide (Num N) (Num 3) = Num s" by simp
  have floor: "Math_floor (Num s) = Num s" unfolding s_def by simp
  have size: "Math_min (Num s) (Num s) = Num s" by simp
  have s0: "s \<noteq> 0" unfolding s_def by simp
  have "rnd (N / s) = Num 3" unfolding rnd_def N_def s_def fl_across by simp
  then have across: "Math_floor (js_divide (Num N) (Num s)) = Num 3" using s0 by simp
  have row: "Math_floor (js_divide (Num 7) (Num 3)) = Num 2"
    using rnd_quotient [of 7 3] by simp
  have column: "js_remainder (Num 7) (Num 3) = Num 1" by simp
  have "rnd s = Num s" unfolding rnd_def s_def fl_side by simp
  then have x: "js_times (Num 1) (Num s) = Num s" by simp
  have "rnd 18014398509481988 = Num 18014398509481988" unfolding rnd_def fl_twice by simp
  then have y: "js_times (Num 2) (Num s) = Num 18014398509481988" unfolding s_def by simp
  have "computeSquareDimensions 7 8 27021597764222980 27021597764222980 =
      finite_square (Num 2) (Num 1) (Num s) (Num 18014398509481988) (Num s)"
    unfolding computeSquareDimensions_def Let_def n n7 n8 area per maxSquare quotient ceil third
      floor size across row column x y ..
  then show ?thesis unfolding s_def by simp
qed


text \<open>
  Claim C2 as stated, for every canvas of positive height and width, fails past
  \<open>2\<^sup>5\<^sup>3\<close>. On a canvas whose height and width are \<open>27021597764222980 = 3 * 2\<^sup>5\<^sup>3 + 4\<close>,
  which is a double, the height over three is rounded up to \<open>2\<^sup>5\<^sup>3 + 2\<close>, the side of the
  tiles, and the width over the side is rounded up to three: the last of eight tiles is in
  row 2, and its lower edge, at \<open>3 * 2\<^sup>5\<^sup>3 + 6\<close>, is two past the height.
\<close>

theorem C2_counterexample:
  "computeSquareDimensions 7 8 27021597764222980 27021597764222980 =
     Some \<lparr>sq_row = 2, sq_column = 1, sq_x = 9007199254740994, sq_y = 18014398509481988,
           sq_size = 9007199254740994\<rparr> \<and>
   \<not> (\<exists>t. computeSquareDimensions 7 8 27021597764222980 27021597764222980 = Some t \<and>
           0 \<le> sq_x t \<and> 0 \<le> sq_y t \<and>
           sq_x t + sq_size t \<le> int 27021597764222980 \<and>
           sq_y t + sq_size t \<le> int 27021597764222980)"
  unfolding square_past_canvas by simp

text \<open>A canvas whose height and width are \<open>10\<^sup>2\<^sup>0\<^sup>0\<close>: the area overflows to
  \<^verbatim>\<open>Infinity\<close>, and so does the side of the tiles; the number of tiles across is zero and
  the row, \<^verbatim>\<open>0 / 0\<close>, is \<^verbatim>\<open>NaN\<close>.\<close>

lemma square_of_overflow: "computeSquareDimensions 0 1 (10 ^ 200) (10 ^ 200) = None"
proof -
  define v where "v = fl (10 ^ 200)"
  have r: "1 / 2 ^ 1000 \<le> (10::real) ^ 200" by simp
  have v1: "10 ^ 200 * (999 / 1000) \<le> v" and v2: "v \<le> 10 ^ 200 * (1001 / 1000)"
    unfolding v_def by (rule fl_close [OF r])+
  have lo: "10 ^ 199 \<le> v" using v1 by simp
  have v0: "0 < v" using lo by (rule less_le_trans [rotated]) simp
  have "v < 2 ^ 1024" using v2 by simp
  then have "rnd (10 ^ 200) = Num v" using v0 by (simp add: rnd_def v_def)
  then have n: "number_of (10 ^ 200) = Num v" by (simp add: number_of_def)
  have n1: "number_of 1 = Num 1" using number_of_safe [of 1] by simp
  have n0: "number_of 0 = Num 0" using number_of_safe [of 0] by simp
  have "(10 ^ 199) * (10 ^ 199) \<le> v * v" using lo by (intro mult_mono) simp_all
  then have sq: "10 ^ 398 \<le> v * v" by simp
  then have "1 / 2 ^ 1000 \<le> v * v" by (rule order_trans [rotated]) simp
  then have "v * v * (999 / 1000) \<le> fl (v * v)" by (rule fl_close)
  then have "10 ^ 397 \<le> fl (v * v)" using sq by simp
  then have "2 ^ 1024 \<le> fl (v * v)" by (rule order_trans [rotated]) simp
  then have area: "js_times (Num v) (Num v) = Infinity" by (simp add: rnd_def)
  show ?thesis
    unfolding computeSquareDimensions_def Let_def n n0 n1 area using v0 by simp
qed

text \<open>Four tiles on a canvas of 100 by 100: every number of the computation is an integer
  and no operation rounds.\<close>

lemma fl_numeral: "(numeral k :: int) < 2 ^ 53 \<Longrightarrow> fl (numeral k) = numeral k"
  using fl_int [of "numeral k"] by simp

lemma sqrt_2500: "sqrt 2500 = 50"
  by (rule real_sqrt_unique) simp_all

lemma square_of_four:
  assumes "index < 4"
  shows "computeSquareDimensions index 4 100 100 =
     Some \<lparr>sq_row = int index div 2, sq_column = int index mod 2,
           sq_x = (int index mod 2) * 50, sq_y = (int index div 2) * 50, sq_size = 50\<rparr>"
proof -
  have m: "fl (sqrt (fl (fl (real 100 * real 100) / real 4))) = 50"
    by (simp add: fl_numeral sqrt_2500)
  have q: "\<lceil>fl (real 100 / 50)\<rceil> = 2" by (simp add: fl_numeral)
  show ?thesis
    using square_in_integers(1) [of 4 100 100 index] assms unfolding m q by simp
qed

lemma tiles_of_four:
  "tiles 4 100 100 =
     [Some \<lparr>sq_row = 0, sq_column = 0, sq_x = 0, sq_y = 0, sq_size = 50\<rparr>,
      Some \<lparr>sq_row = 0, sq_column = 1, sq_x = 50, sq_y = 0, sq_size = 50\<rparr>,
      Some \<lparr>sq_row = 1, sq_column = 0, sq_x = 0, sq_y = 50, sq_size = 50\<rparr>,
      Some \<lparr>sq_row = 1, sq_column = 1, sq_x = 50, sq_y = 50, sq_size = 50\<rparr>]"
  by (simp add: tiles_def square_of_four upt_rec)


text \<open>Nine tiles on a canvas of 31 by 31: the area per tile, \<open>961 / 9\<close>, is rounded down,
  its square root is a double below \<open>31 / 3\<close>, and 31 over that double is the double after
  three, whose ceiling is four: the tiles have side 7, where exact arithmetic gives 10.\<close>

lemma round_half_even_unique:
  assumes "of_int k - 1 / 2 < y" and "y < of_int k + 1 / 2"
  shows "round_half_even y = k"
proof -
  have "\<lfloor>y\<rfloor> = k \<or> \<lfloor>y\<rfloor> = k - 1" using assms by linarith
  then show ?thesis
  proof
    assume "\<lfloor>y\<rfloor> = k"
    then show ?thesis using assms by (simp add: round_half_even_def Let_def)
  next
    assume "\<lfloor>y\<rfloor> = k - 1"
    then show ?thesis using assms by (simp add: round_half_even_def Let_def)
  qed
qed

lemma fl_area_nine: "fl (961 / 9) = 7513818128303900 / 2 ^ 46"
  using fl_eval [of 6 "961 / 9"] by (simp add: round_half_even_def powr_minus)

lemma fl_side_nine: "fl (sqrt (7513818128303900 / 2 ^ 46)) = 5817149518686890 / 2 ^ 49"
proof -
  let ?p = "7513818128303900 / 2 ^ 46 :: real"
  have "8\<^sup>2 \<le> ?p" by simp
  then have lo: "8 \<le> sqrt ?p" by (rule real_le_rsqrt)
  have "?p < 16\<^sup>2" by simp
  then have hi: "sqrt ?p < 16" by (intro real_less_lsqrt) simp_all
  have e: "fl (sqrt ?p) = of_int (round_half_even (sqrt ?p / 2 powr (of_int 3 - 52))) * 2 powr (of_int 3 - 52)"
    using lo hi by (intro fl_eval) simp_all
  have pw: "(2::real) powr (of_int 3 - 52) = 1 / 2 ^ 49" by (simp add: powr_minus field_simps)
  have "((5817149518686890 - 1 / 2) / 2 ^ 49)\<^sup>2 < ?p" by (simp add: power2_eq_square)
  then have "(5817149518686890 - 1 / 2) / 2 ^ 49 < sqrt ?p" by (rule real_less_rsqrt)
  then have l: "of_int 5817149518686890 - 1 / 2 < sqrt ?p / (1 / 2 ^ 49)" by (simp add: field_simps)
  have "?p < ((5817149518686890 + 1 / 2) / 2 ^ 49)\<^sup>2" by (simp add: power2_eq_square)
  then have "sqrt ?p < (5817149518686890 + 1 / 2) / 2 ^ 49" by (intro real_less_lsqrt) simp_all
  then have u: "sqrt ?p / (1 / 2 ^ 49) < of_int 5817149518686890 + 1 / 2" by (simp add: field_simps)
  have "round_half_even (sqrt ?p / (1 / 2 ^ 49)) = 5817149518686890"
    using l u by (rule round_half_even_unique)
  then show ?thesis unfolding e pw by simp
qed

lemma fl_quotient_nine: "fl (31 / (5817149518686890 / 2 ^ 49)) = 6755399441055745 / 2 ^ 51"
  using fl_eval [of 1 "31 / (5817149518686890 / 2 ^ 49)"]
  by (simp add: round_half_even_def powr_minus)

lemma square_of_nine:
  "computeSquareDimensions 8 9 31 31 =
     Some \<lparr>sq_row = 2, sq_column = 0, sq_x = 0, sq_y = 14, sq_size = 7\<rparr>"
proof -
  have n: "real 31 = 31" "real 9 = 9" by simp_all
  have a: "(31::real) * 31 = 961" by simp
  have f: "fl 961 = 961" by (simp add: fl_numeral)
  have v: "fl (real 31 / fl (sqrt (fl (fl (real 31 * real 31) / real 9)))) = 6755399441055745 / 2 ^ 51"
    by (simp only: n a f fl_area_nine fl_side_nine fl_quotient_nine)
  have q: "\<lceil>fl (real 31 / fl (sqrt (fl (fl (real 31 * real 31) / real 9))))\<rceil> = 4"
    unfolding v by (intro ceiling_unique) simp_all
  show ?thesis
    using square_in_integers(1) [of 9 31 31 8] unfolding q by simp
qed

text \<open>
  Claim C3. Four tiles on a canvas of 100 by 100 are squares of side 50 at \<open>(0, 0)\<close>,
  \<open>(50, 0)\<close>, \<open>(0, 50)\<close> and \<open>(50, 50)\<close>, in this order; a point is covered by
  exactly one tile if and only if it is a point of the canvas, so there is neither a gap
  nor an overlap.
\<close>

theorem C3_four_tiles:
  "tiles 4 100 100 =
     [Some \<lparr>sq_row = 0, sq_column = 0, sq_x = 0, sq_y = 0, sq_size = 50\<rparr>,
      Some \<lparr>sq_row = 0, sq_column = 1, sq_x = 50, sq_y = 0, sq_size = 50\<rparr>,
      Some \<lparr>sq_row = 1, sq_column = 0, sq_x = 0, sq_y = 50, sq_size = 50\<rparr>,
      Some \<lparr>sq_row = 1, sq_column = 1, sq_x = 50, sq_y = 50, sq_size = 50\<rparr>] \<and>
   (\<exists>!t. Some t \<in> set (tiles 4 100 100) \<and> covers t px py) =
     (0 \<le> px \<and> px < 100 \<and> 0 \<le> py \<and> py < 100)"
proof -
  let ?t0 = "\<lparr>sq_row = 0, sq_column = 0, sq_x = 0, sq_y = 0, sq_size = 50\<rparr>"
  let ?t1 = "\<lparr>sq_row = 0, sq_column = 1, sq_x = 50, sq_y = 0, sq_size = 50\<rparr>"
  let ?t2 = "\<lparr>sq_row = 1, sq_column = 0, sq_x = 0, sq_y = 50, sq_size = 50\<rparr>"
  let ?t3 = "\<lparr>sq_row = 1, sq_column = 1, sq_x = 50, sq_y = 50, sq_size = 50\<rparr>"
  have mem: "Some t \<in> set (tiles 4 100 100) \<longleftrightarrow> t = ?t0 \<or> t = ?t1 \<or> t = ?t2 \<or> t = ?t3" for t
    unfolding tiles_of_four by auto
  have c0: "covers ?t0 px py \<longleftrightarrow> 0 \<le> px \<and> px < 50 \<and> 0 \<le> py \<and> py < 50"
    and c1: "covers ?t1 px py \<longleftrightarrow> 50 \<le> px \<and> px < 100 \<and> 0 \<le> py \<and> py < 50"
    and c2: "covers ?t2 px py \<longleftrightarrow> 0 \<le> px \<and> px < 50 \<and> 50 \<le> py \<and> py < 100"
    and c3: "covers ?t3 px py \<longleftrightarrow> 50 \<le> px \<and> px < 100 \<and> 50 \<le> py \<and> py < 100"
    by (simp_all add: covers_def)
  have "(\<exists>!t. Some t \<in> set (tiles 4 100 100) \<and> covers t px py) =
     (0 \<le> px \<and> px < 100 \<and> 0 \<le> py \<and> py < 100)"
  proof
    assume "\<exists>!t. Some t \<in> set (tiles 4 100 100) \<and> covers t px py"
    then obtain t where "Some t \<in> set (tiles 4 100 100)" and "covers t px py" by blast
    then show "0 \<le> px \<and> px < 100 \<and> 0 \<le> py \<and> py < 100"
      unfolding mem using c0 c1 c2 c3 by auto
  next
    assume canvas: "0 \<le> px \<and> px < 100 \<and> 0 \<le> py \<and> py < 100"
    consider "px < 50" "py < 50" | "50 \<le> px" "py < 50" | "px < 50" "50 \<le> py" | "50 \<le> px" "50 \<le> py"
      by linarith
    then show "\<exists>!t. Some t \<in> set (tiles 4 100 100) \<and> covers t px py"
    proof cases
      case 1
      then have "covers ?t0 px py" "\<not> covers ?t1 px py" "\<not> covers ?t2 px py" "\<not> covers ?t3 px py"
        using canvas c0 c1 c2 c3 by simp_all
      then show ?thesis unfolding mem by (intro ex1I [of _ ?t0]) auto
    next
      case 2
      then have "\<not> covers ?t0 px py" "covers ?t1 px py" "\<not> covers ?t2 px py" "\<not> covers ?t3 px py"
        using canvas c0 c1 c2 c3 by simp_all
      then show ?thesis unfolding mem by (intro ex1I [of _ ?t1]) auto
    next
      case 3
      then have "\<not> covers ?t0 px py" "\<not> covers ?t1 px py" "covers ?t2 px py" "\<not> covers ?t3 px py"
        using canvas c0 c1 c2 c3 by simp_all
      then show ?thesis unfolding mem by (intro ex1I [of _ ?t2]) auto
    next
      case 4
      then have "\<not> covers ?t0 px py" "\<not> covers ?t1 px py" "\<not> covers ?t2 px py" "covers ?t3 px py"
        using canvas c0 c1 c2 c3 by simp_all
      then show ?thesis unfolding mem by (intro ex1I [of _ ?t3]) auto
    qed
  qed
  then show ?thesis using tiles_of_four by simp
qed

subsection \<open>The clustering\<close>

lemma dataset_of_line_segments: "dataset_of line_segments = line_dataset"
  by (simp add: dataset_of_def line_segments_def line_dataset_def moves_of_def endpoints_def
      lodash_first_def lodash_last_def pick_lat_lon_def lodash_uniqBy_def values_key_def
      track_on_equator_def on_equator_def)

lemma upt_7: "[0..<7] = [0, 1, 2, 3, 4, 5, 6]"
  by code_simp

lemma neighborhood_line:
  "neighborhood equator_distance 12000 line_dataset 0 = [0, 1, 2]"
  "neighborhood equator_distance 12000 line_dataset (Suc 0) = [0, 1, 2]"
  "neighborhood equator_distance 12000 line_dataset 2 = [0, 1, 2, 3]"
  "neighborhood equator_distance 12000 line_dataset 3 = [2, 3, 4]"
  "neighborhood equator_distance 12000 line_dataset 4 = [3, 4, 5, 6]"
  "neighborhood equator_distance 12000 line_dataset 5 = [4, 5, 6]"
  "neighborhood equator_distance 12000 line_dataset 6 = [4, 5, 6]"
  by (simp_all add: neighborhood_def line_dataset_def equator_distance_def on_equator_def upt_7)

lemma is_core_line:
  "\<not> is_core equator_distance 12000 4 line_dataset 0"
  "\<not> is_core equator_distance 12000 4 line_dataset (Suc 0)"
  "is_core equator_distance 12000 4 line_dataset 2"
  "\<not> is_core equator_distance 12000 4 line_dataset 3"
  "is_core equator_distance 12000 4 line_dataset 4"
  "\<not> is_core equator_distance 12000 4 line_dataset 5"
  "\<not> is_core equator_distance 12000 4 line_dataset 6"
  by (simp_all add: is_core_def neighborhood_line)

lemma length_line_dataset: "length line_dataset = 7"
  by (simp add: line_dataset_def)

lemma dbscan_line_dataset:
  "dbscan_run equator_distance 12000 4 line_dataset = [[2, 0, 1, 3], [4, 5, 6]]"
  by (simp add: dbscan_run_def length_line_dataset upt_7 scanPoint_def is_core_line
      neighborhood_line union_into_def)


lemma neighborhood_range: "set (neighborhood d e ds p) \<subseteq> {0..<length ds}"
  by (auto simp: neighborhood_def)

lemma union_into_range:
  "set fr \<subseteq> {0..<n} \<Longrightarrow> set nb \<subseteq> {0..<n} \<Longrightarrow> set (union_into fr nb) \<subseteq> {0..<n}"
  by (auto simp: union_into_def)

lemma set_union_into: "set (union_into fr nb) = set fr \<union> set nb"
  by (auto simp: union_into_def)

lemma expandCluster_invariant:
  assumes "expandCluster d e m ds fr vis asg cl = (vis', asg', cl')"
    and "distinct cl" and "set cl \<subseteq> asg" and "asg \<subseteq> vis"
    and "set fr \<subseteq> {0..<length ds}" and "set cl \<subseteq> {0..<length ds}"
  shows "distinct cl' \<and> set cl \<subseteq> set cl' \<and> set cl' \<subseteq> asg' \<and>
         asg' - set cl' = asg - set cl \<and> asg' \<subseteq> vis' \<and> set cl' \<subseteq> {0..<length ds}"
  using assms
proof (induction d e m ds fr vis asg cl arbitrary: vis' asg' cl' rule: expandCluster.induct)
  case (1 d e m ds vis asg cl)
  then show ?case by simp
next
  case (2 d e m ds q fr vis asg cl)
  let ?fr = "if q \<notin> asg \<and> is_core d e m ds q then union_into fr (neighborhood d e ds q) else fr"
  let ?cl = "if q \<in> asg then cl else cl @ [q]"
  have run: "expandCluster d e m ds ?fr (insert q vis) (insert q asg) ?cl = (vis', asg', cl')"
    using "2.prems"(1) by simp
  have q: "q < length ds" and fr: "set fr \<subseteq> {0..<length ds}"
    using "2.prems"(5) by simp_all
  have d: "distinct ?cl" using "2.prems"(2,3) by auto
  have s: "set ?cl \<subseteq> insert q asg" using "2.prems"(3) by auto
  have v: "insert q asg \<subseteq> insert q vis" using "2.prems"(4) by auto
  have f: "set ?fr \<subseteq> {0..<length ds}"
    using fr neighborhood_range [of d e ds q] by (simp add: union_into_range)
  have c: "set ?cl \<subseteq> {0..<length ds}" using "2.prems"(6) q by simp
  have step: "distinct cl' \<and> set ?cl \<subseteq> set cl' \<and> set cl' \<subseteq> asg' \<and>
         asg' - set cl' = insert q asg - set ?cl \<and> asg' \<subseteq> vis' \<and> set cl' \<subseteq> {0..<length ds}"
    by (rule "2.IH" [OF run d s v f c])
  have "insert q asg - set ?cl = asg - set cl" using "2.prems"(3) by auto
  moreover have "set cl \<subseteq> set ?cl" by auto
  ultimately show ?case using step by auto
qed

text \<open>The growth of a cluster claims every frontier point, and it closes the cluster under
  the neighbourhoods of its core points.\<close>

lemma expandCluster_closed:
  assumes "expandCluster d e m ds fr vis asg cl = (vis', asg', cl')"
    and "set cl \<subseteq> asg"
    and "\<forall>q \<in> set cl. is_core d e m ds q \<longrightarrow> set (neighborhood d e ds q) \<subseteq> asg \<union> set fr"
  shows "asg \<union> set fr \<subseteq> asg' \<and>
         (\<forall>q \<in> set cl'. is_core d e m ds q \<longrightarrow> set (neighborhood d e ds q) \<subseteq> asg')"
  using assms
proof (induction d e m ds fr vis asg cl arbitrary: vis' asg' cl' rule: expandCluster.induct)
  case (1 d e m ds vis asg cl)
  then show ?case by auto
next
  case (2 d e m ds q fr vis asg cl)
  let ?fr = "if q \<notin> asg \<and> is_core d e m ds q then union_into fr (neighborhood d e ds q) else fr"
  let ?cl = "if q \<in> asg then cl else cl @ [q]"
  have run: "expandCluster d e m ds ?fr (insert q vis) (insert q asg) ?cl = (vis', asg', cl')"
    using "2.prems"(1) by simp
  have s: "set ?cl \<subseteq> insert q asg" using "2.prems"(2) by auto
  have sub: "set fr \<subseteq> set ?fr" by (simp add: set_union_into)
  have k: "\<forall>p \<in> set ?cl. is_core d e m ds p \<longrightarrow>
             set (neighborhood d e ds p) \<subseteq> insert q asg \<union> set ?fr"
  proof (intro ballI impI)
    fix p
    assume p: "p \<in> set ?cl" and core: "is_core d e m ds p"
    show "set (neighborhood d e ds p) \<subseteq> insert q asg \<union> set ?fr"
    proof (cases "p \<in> set cl")
      case True
      then have "set (neighborhood d e ds p) \<subseteq> asg \<union> set (q # fr)"
        using "2.prems"(3) core by blast
      then show ?thesis using sub by auto
    next
      case False
      then have "p = q" and "q \<notin> asg" using p by (auto split: if_splits)
      then show ?thesis using core by (auto simp: set_union_into)
    qed
  qed
  have step: "insert q asg \<union> set ?fr \<subseteq> asg' \<and>
         (\<forall>q \<in> set cl'. is_core d e m ds q \<longrightarrow> set (neighborhood d e ds q) \<subseteq> asg')"
    by (rule "2.IH" [OF run s k])
  then show ?case using sub by auto
qed

lemma scanPoint_invariant:
  assumes inv: "scan_invariant d e m ds st" and p: "p < length ds"
  shows "scan_invariant d e m ds (scanPoint d e m ds st p)"
proof -
  obtain vis asg cls where st: "st = (vis, asg, cls)" by (cases st)
  have dist: "distinct (concat cls)" and cover: "set (concat cls) = asg" and av: "asg \<subseteq> vis"
    and groups: "\<forall>g \<in> set cls. set g \<subseteq> {0..<length ds} \<and> (\<exists>p \<in> set g. is_core d e m ds p)"
    and closed: "\<forall>i < length cls. \<forall>q \<in> set (cls ! i). is_core d e m ds q \<longrightarrow>
           set (neighborhood d e ds q) \<subseteq> set (concat (take (Suc i) cls))"
    using inv unfolding st scan_invariant_def by simp_all
  show ?thesis
  proof (cases "p \<in> vis")
    case True
    then show ?thesis using inv unfolding st scanPoint_def by simp
  next
    case unvisited: False
    show ?thesis
    proof (cases "is_core d e m ds p")
      case False
      have "scan_invariant d e m ds (insert p vis, asg, cls)"
        using dist cover av groups closed unfolding scan_invariant_def prod.case by blast
      then show ?thesis
        using unvisited False unfolding st scanPoint_def by simp
    next
      case True
      obtain vis' asg' cl' where run:
        "expandCluster d e m ds (neighborhood d e ds p) (insert p vis) (insert p asg) [p] =
           (vis', asg', cl')"
        by (cases "expandCluster d e m ds (neighborhood d e ds p) (insert p vis) (insert p asg) [p]")
      have res: "distinct cl' \<and> set [p] \<subseteq> set cl' \<and> set cl' \<subseteq> asg' \<and>
         asg' - set cl' = insert p asg - set [p] \<and> asg' \<subseteq> vis' \<and> set cl' \<subseteq> {0..<length ds}"
        using av p neighborhood_range [of d e ds p]
        by (intro expandCluster_invariant [OF run]) auto
      have cl: "\<forall>q \<in> set cl'. is_core d e m ds q \<longrightarrow> set (neighborhood d e ds q) \<subseteq> asg'"
        using expandCluster_closed [OF run] by auto
      have fresh: "p \<notin> asg" using unvisited av by auto
      then have old: "asg' - set cl' = asg" using res by auto
      then have disj: "set cl' \<inter> asg = {}" by auto
      have all: "asg' = asg \<union> set cl'" using old res by auto
      have d1: "distinct (concat (cls @ [cl']))"
        using dist res disj cover by auto
      have d2: "set (concat (cls @ [cl'])) = asg'"
        using cover all by auto
      have d3: "\<forall>g \<in> set (cls @ [cl']). set g \<subseteq> {0..<length ds} \<and>
          (\<exists>p \<in> set g. is_core d e m ds p)"
        using groups res True by auto
      have d4: "\<forall>i < length (cls @ [cl']). \<forall>q \<in> set ((cls @ [cl']) ! i).
           is_core d e m ds q \<longrightarrow>
           set (neighborhood d e ds q) \<subseteq> set (concat (take (Suc i) (cls @ [cl'])))"
      proof (intro allI impI ballI)
        fix i q
        assume i: "i < length (cls @ [cl'])" and q: "q \<in> set ((cls @ [cl']) ! i)"
          and core: "is_core d e m ds q"
        show "set (neighborhood d e ds q) \<subseteq> set (concat (take (Suc i) (cls @ [cl'])))"
        proof (cases "i < length cls")
          case True
          then have "set (neighborhood d e ds q) \<subseteq> set (concat (take (Suc i) cls))"
            using closed q core by (simp add: nth_append)
          then show ?thesis using True by simp
        next
          case False
          then have "i = length cls" using i by simp
          then have "q \<in> set cl'" using q by simp
          then have "set (neighborhood d e ds q) \<subseteq> asg'" using cl core by blast
          then show ?thesis using d2 \<open>i = length cls\<close> by simp
        qed
      qed
      have "scan_invariant d e m ds (vis', asg', cls @ [cl'])"
        using d1 d2 d3 d4 res unfolding scan_invariant_def prod.case by blast
      then show ?thesis
        using unvisited True run unfolding st scanPoint_def by simp
    qed
  qed
qed

lemma foldl_scan_invariant:
  assumes "scan_invariant d e m ds st" and "set ps \<subseteq> {0..<length ds}"
  shows "scan_invariant d e m ds (foldl (scanPoint d e m ds) st ps)"
  using assms
proof (induction ps arbitrary: st)
  case Nil
  then show ?case by simp
next
  case (Cons p ps)
  then show ?case by (simp add: scanPoint_invariant)
qed

lemma dbscan_run_invariant:
  "distinct (concat (dbscan_run d e m ds)) \<and>
   (\<forall>g \<in> set (dbscan_run d e m ds). set g \<subseteq> {0..<length ds} \<and>
      (\<exists>p \<in> set g. is_core d e m ds p)) \<and>
   (\<forall>i < length (dbscan_run d e m ds). \<forall>q \<in> set (dbscan_run d e m ds ! i).
      is_core d e m ds q \<longrightarrow>
      set (neighborhood d e ds q) \<subseteq> set (concat (take (Suc i) (dbscan_run d e m ds))))"
proof -
  have "scan_invariant d e m ds ({}, {}, [])"
    by (simp add: scan_invariant_def)
  then have "scan_invariant d e m ds (foldl (scanPoint d e m ds) ({}, {}, []) [0..<length ds])"
    by (rule foldl_scan_invariant) simp
  then show ?thesis
    unfolding dbscan_run_def scan_invariant_def by (auto split: prod.splits)
qed

lemma distinct_neighborhood: "distinct (neighborhood d e ds p)"
  by (simp add: neighborhood_def)

text \<open>A list without duplicates whose elements are in one of two sets is no longer than
  the number of its elements in the first set plus the length of a list that holds the
  second.\<close>

lemma length_split_bound:
  assumes "distinct ns" and "set ns \<subseteq> A \<union> set g"
  shows "length ns \<le> length (filter (\<lambda>q. q \<in> A) ns) + length g"
proof -
  have "length ns = length (filter (\<lambda>q. q \<in> A) ns) + length (filter (\<lambda>q. q \<notin> A) ns)"
    by (rule sum_length_filter_compl [symmetric])
  moreover have "length (filter (\<lambda>q. q \<notin> A) ns) \<le> length g"
  proof -
    have "distinct (filter (\<lambda>q. q \<notin> A) ns)" using assms(1) by simp
    then have "length (filter (\<lambda>q. q \<notin> A) ns) = card (set (filter (\<lambda>q. q \<notin> A) ns))"
      by (simp only: distinct_card)
    also have "\<dots> \<le> card (set g)"
      using assms(2) by (intro card_mono) auto
    also have "\<dots> \<le> length g" by (rule card_length)
    finally show ?thesis .
  qed
  ultimately show ?thesis by simp
qed

lemma distinct_concat_disjoint:
  assumes "distinct (concat gs)" and "i < j" and "j < length gs"
  shows "set (gs ! i) \<inter> set (gs ! j) = {}"
  using assms
proof (induction gs arbitrary: i j)
  case Nil
  then show ?case by simp
next
  case (Cons g gs)
  show ?case
  proof (cases i)
    case 0
    with Cons.prems obtain j' where j: "j = Suc j'" and "j' < length gs"
      by (cases j) auto
    then have "gs ! j' \<in> set gs" by simp
    with Cons.prems(1) show ?thesis unfolding 0 j by auto
  next
    case (Suc i')
    with Cons.prems obtain j' where "j = Suc j'" "i' < j'" "j' < length gs"
      by (cases j) auto
    with Cons.IH [of i' j'] Cons.prems(1) Suc show ?thesis by simp
  qed
qed

text \<open>The dataset has no duplicates, so the groups of points that
  \<^verbatim>\<open>clusterLocations\<close> returns are pairwise disjoint as well.\<close>

lemma clusterLocations_disjoint:
  assumes "i < j" and "j < length (clusterLocations d e m segments)"
  shows "set (clusterLocations d e m segments ! i) \<inter>
         set (clusterLocations d e m segments ! j) = {}"
proof -
  let ?ds = "dataset_of segments"
  let ?out = "dbscan_run d e m ?ds"
  have len: "j < length ?out" "i < length ?out"
    using assms by (simp_all add: clusterLocations_def Let_def)
  have inv: "distinct (concat ?out)"
    and range: "\<forall>g \<in> set ?out. set g \<subseteq> {0..<length ?ds}"
    using dbscan_run_invariant [of d e m ?ds] by auto
  have disj: "set (?out ! i) \<inter> set (?out ! j) = {}"
    using inv assms(1) len(1) by (rule distinct_concat_disjoint)
  have "?out ! i \<in> set ?out" "?out ! j \<in> set ?out" using len by simp_all
  then have sub: "set (?out ! i) \<union> set (?out ! j) \<subseteq> {0..<length ?ds}"
    using range by blast
  have "distinct ?ds" by (simp add: dataset_of_first_occurrences distinct_first_occurrences)
  then have "inj_on (nth ?ds) {0..<length ?ds}"
    by (simp add: inj_on_nth)
  then have inj: "inj_on (nth ?ds) (set (?out ! i) \<union> set (?out ! j))"
    using sub by (rule inj_on_subset)
  have "nth ?ds ` set (?out ! i) \<inter> nth ?ds ` set (?out ! j) = nth ?ds ` (set (?out ! i) \<inter> set (?out ! j))"
    by (rule inj_on_image_Int [symmetric, OF inj]) blast+
  then show ?thesis
    using disj len by (simp add: clusterLocations_def Let_def)
qed

text \<open>
  Claim C5, amended. The groups of the clustering are pairwise disjoint. Every group has no
  index twice, consists of indices of the dataset, and is closed under its core points:
  the whole neighbourhood of every point of the group that has at least minPoints
  neighbours lies in the group or in the groups found before it. Every group contains such
  a core point, and so the size of the group plus the number of neighbours of that point
  that earlier groups claimed is at least minPoints. The first group has at least
  minPoints points.
\<close>

theorem C5_groups:
  "(\<forall>i j. i < j \<and> j < length (dbscan_run d e m ds) \<longrightarrow>
      set (dbscan_run d e m ds ! i) \<inter> set (dbscan_run d e m ds ! j) = {}) \<and>
   (\<forall>i < length (dbscan_run d e m ds).
      distinct (dbscan_run d e m ds ! i) \<and>
      set (dbscan_run d e m ds ! i) \<subseteq> {0..<length ds} \<and>
      (\<forall>q \<in> set (dbscan_run d e m ds ! i).
         m \<le> int (length (neighborhood d e ds q)) \<longrightarrow>
         set (neighborhood d e ds q) \<subseteq> set (concat (take (Suc i) (dbscan_run d e m ds)))) \<and>
      (\<exists>p \<in> set (dbscan_run d e m ds ! i).
         m \<le> int (length (neighborhood d e ds p)) \<and>
         m \<le> int (length (dbscan_run d e m ds ! i)) +
              int (length (filter (\<lambda>q. q \<in> set (concat (take i (dbscan_run d e m ds))))
                     (neighborhood d e ds p))))) \<and>
   (dbscan_run d e m ds \<noteq> [] \<longrightarrow> m \<le> int (length (hd (dbscan_run d e m ds))))"
proof -
  let ?out = "dbscan_run d e m ds"
  have inv: "distinct (concat ?out)"
    and groups: "\<forall>g \<in> set ?out. set g \<subseteq> {0..<length ds} \<and> (\<exists>p \<in> set g. is_core d e m ds p)"
    and closed: "\<forall>i < length ?out. \<forall>q \<in> set (?out ! i). is_core d e m ds q \<longrightarrow>
      set (neighborhood d e ds q) \<subseteq> set (concat (take (Suc i) ?out))"
    using dbscan_run_invariant [of d e m ds] by blast+
  have disjoint: "set (?out ! i) \<inter> set (?out ! j) = {}"
    if "i < j" "j < length ?out" for i j
    using inv that by (rule distinct_concat_disjoint)
  have group: "distinct (?out ! i) \<and> set (?out ! i) \<subseteq> {0..<length ds} \<and>
      (\<forall>q \<in> set (?out ! i). m \<le> int (length (neighborhood d e ds q)) \<longrightarrow>
         set (neighborhood d e ds q) \<subseteq> set (concat (take (Suc i) ?out))) \<and>
      (\<exists>p \<in> set (?out ! i). m \<le> int (length (neighborhood d e ds p)) \<and>
         m \<le> int (length (?out ! i)) +
              int (length (filter (\<lambda>q. q \<in> set (concat (take i ?out))) (neighborhood d e ds p))))"
    if i: "i < length ?out" for i
  proof -
    have mem: "?out ! i \<in> set ?out" using i by simp
    then have d: "distinct (?out ! i)" using inv by (auto simp: distinct_concat_iff)
    have r: "set (?out ! i) \<subseteq> {0..<length ds}" using groups mem by blast
    have c: "\<forall>q \<in> set (?out ! i). m \<le> int (length (neighborhood d e ds q)) \<longrightarrow>
         set (neighborhood d e ds q) \<subseteq> set (concat (take (Suc i) ?out))"
      using closed i unfolding is_core_def by blast
    obtain p where p: "p \<in> set (?out ! i)" and core: "m \<le> int (length (neighborhood d e ds p))"
      using groups mem unfolding is_core_def by blast
    have "set (neighborhood d e ds p) \<subseteq> set (concat (take (Suc i) ?out))"
      using c p core by blast
    also have "\<dots> = set (concat (take i ?out)) \<union> set (?out ! i)"
      using i by (simp add: take_Suc_conv_app_nth)
    finally have "length (neighborhood d e ds p) \<le>
        length (filter (\<lambda>q. q \<in> set (concat (take i ?out))) (neighborhood d e ds p)) +
        length (?out ! i)"
      by (intro length_split_bound distinct_neighborhood)
    then have "m \<le> int (length (?out ! i)) +
        int (length (filter (\<lambda>q. q \<in> set (concat (take i ?out))) (neighborhood d e ds p)))"
      using core by linarith
    then show ?thesis using d r c p core by blast
  qed
  have first: "m \<le> int (length (hd ?out))" if ne: "?out \<noteq> []"
  proof -
    have 0: "0 < length ?out" using ne by simp
    have hd: "?out ! 0 = hd ?out" using ne by (simp add: hd_conv_nth)
    from group [OF 0] show ?thesis unfolding hd by auto
  qed
  show ?thesis using disjoint group first by blast
qed

text \<open>An instance: the two groups found among the seven points on the equator. The second
  group has three points and a core point with one neighbour in the first group.\<close>

theorem C5_groups_witness:
  "set (dbscan_run equator_distance 12000 4 line_dataset ! 0) \<inter>
     set (dbscan_run equator_distance 12000 4 line_dataset ! 1) = {} \<and>
   distinct (dbscan_run equator_distance 12000 4 line_dataset ! 1) \<and>
   (\<exists>p \<in> set (dbscan_run equator_distance 12000 4 line_dataset ! 1).
      4 \<le> int (length (neighborhood equator_distance 12000 line_dataset p)) \<and>
      4 \<le> int (length (dbscan_run equator_distance 12000 4 line_dataset ! 1)) +
          int (length (filter
            (\<lambda>q. q \<in> set (concat (take 1 (dbscan_run equator_distance 12000 4 line_dataset))))
            (neighborhood equator_distance 12000 line_dataset p)))) \<and>
   4 \<le> int (length (hd (dbscan_run equator_distance 12000 4 line_dataset)))"
proof -
  let ?out = "dbscan_run equator_distance 12000 4 line_dataset"
  have len: "(0::nat) < 1 \<and> 1 < length ?out" by (simp add: dbscan_line_dataset)
  have ne: "?out \<noteq> []" by (simp add: dbscan_line_dataset)
  from C5_groups [of equator_distance 12000 4 line_dataset] len ne show ?thesis by blast
qed

text \<open>
  Claim C5 says that every group has at least minPoints points. On the seven points of the
  equator, with the default epsilon of 12000 metres and minPoints of 4, the second group
  has three points: its seed, at index 4, has four neighbours, but one of them, at index
  3, was claimed by the first group as a border point.
\<close>

theorem C5_counterexample:
  "dbscan_run equator_distance 12000 4 (dataset_of line_segments) = [[2, 0, 1, 3], [4, 5, 6]] \<and>
   (\<exists>g \<in> set (dbscan_run equator_distance 12000 4 (dataset_of line_segments)).
      int (length g) < 4) \<and>
   map length (clusterLocations equator_distance 12000 4 line_segments) = [4, 3]"
  by (simp add: clusterLocations_def Let_def dataset_of_line_segments dbscan_line_dataset)

end
